theory Spec2Isabelle
  imports Main "HOL-Library.Word" "HOL-Library.Signed_Division"
begin

unbundle bit_operations_syntax

section \<open>Byte primitives\<close>

text \<open>
  The tools work on raw bytes of the database file. \<open>u8\<close>, \<open>u32\<close> are the C typedefs of the
  sources; \<open>u64\<close> stands for both \<open>uint64_t\<close> and \<open>sqlite3_int64\<close> (the latter is read as two's
  complement with \<open>sint\<close> where the source compares or divides it as a signed value).

  A buffer is a list of bytes and \<open>z ! k\<close> is the byte at offset \<open>k\<close>. A read past the end of
  a buffer is undefined behaviour in C; the model leaves such a byte unspecified (as \<open>!\<close> does),
  and every concrete input used below keeps all reads inside the buffer.
\<close>

type_synonym u8 = "8 word"
type_synonym u32 = "32 word"
type_synonym u64 = "64 word"

text \<open>\<open>get32\<close> (pageacct.c, freelistck.c, freelistfind.c) and \<open>read32\<close> (dumprow.c, pageowner.c,
  tablewalk.c): big-endian 32-bit value at offset \<open>k\<close> of buffer \<open>z\<close>.\<close>

definition get32 :: "u8 list \<Rightarrow> nat \<Rightarrow> u32" where
  "get32 z k = push_bit 24 (ucast (z ! k)) + push_bit 16 (ucast (z ! (k + 1)))
             + push_bit 8 (ucast (z ! (k + 2))) + ucast (z ! (k + 3))"

definition read32 :: "u8 list \<Rightarrow> nat \<Rightarrow> u32" where
  "read32 p k = push_bit 24 (ucast (p ! k)) OR push_bit 16 (ucast (p ! (k + 1)))
             OR push_bit 8 (ucast (p ! (k + 2))) OR ucast (p ! (k + 3))"

text \<open>\<open>read16\<close>: big-endian 16-bit value, \<open>(p[0]<<8) | p[1]\<close>.\<close>

definition read16 :: "u8 list \<Rightarrow> nat \<Rightarrow> u32" where
  "read16 p k = push_bit 8 (ucast (p ! k)) OR ucast (p ! (k + 1))"

text \<open>\<open>decodeVarint\<close> (pageacct.c, freelistfind.c): the loop over at most eight 7-bit groups and
  the ninth byte taken whole. The result is the value and the number of bytes consumed.\<close>

function decodeVarint_from :: "u8 list \<Rightarrow> nat \<Rightarrow> nat \<Rightarrow> u64 \<Rightarrow> u64 \<times> nat" where
  "decodeVarint_from z k i v =
     (if i < 8 then
        (let v' = push_bit 7 v + ucast (z ! (k + i) AND 0x7f)
         in if z ! (k + i) AND 0x80 = 0 then (v', i + 1)
            else decodeVarint_from z k (i + 1) v')
      else (push_bit 8 v + ucast (z ! (k + i) AND 0xff), 9))"
  by pat_completeness auto
termination
  by (relation "measure (\<lambda>(z, k, i, v). 8 - i)") auto

declare decodeVarint_from.simps [simp del]

definition decodeVarint :: "u8 list \<Rightarrow> nat \<Rightarrow> u64 \<times> nat" where
  "decodeVarint z k = decodeVarint_from z k 0 0"

text \<open>\<open>readVarint\<close> (dumprow.c, pageowner.c, tablewalk.c): the same loop written with \<open>|\<close>.\<close>

function readVarint_from :: "u8 list \<Rightarrow> nat \<Rightarrow> nat \<Rightarrow> u64 \<Rightarrow> u64 \<times> nat" where
  "readVarint_from p k i v =
     (if i < 8 then
        (let v' = push_bit 7 v OR ucast (p ! (k + i) AND 0x7f)
         in if p ! (k + i) AND 0x80 = 0 then (v', i + 1)
            else readVarint_from p k (i + 1) v')
      else (push_bit 8 v OR ucast (p ! (k + 8)), 9))"
  by pat_completeness auto
termination
  by (relation "measure (\<lambda>(p, k, i, v). 8 - i)") auto

declare readVarint_from.simps [simp del]

definition readVarint :: "u8 list \<Rightarrow> nat \<Rightarrow> u64 \<times> nat" where
  "readVarint p k = readVarint_from p k 0 0"

text \<open>The C operator \<open>%\<close> on \<open>sqlite3_int64\<close> truncates towards zero. A zero divisor traps in C;
  the model leaves that case to \<open>smod\<close>.\<close>

definition i64_rem :: "u64 \<Rightarrow> u64 \<Rightarrow> u64" where
  "i64_rem a b = word_of_int (sint a smod sint b)"


section \<open>Database header: page size\<close>

text \<open>\<open>readHeader\<close> of pageacct.c (also freelistfind.c and the current freelistck.c):
  the 16-bit big-endian field at offset 16, with 1 standing for 65536 and 0 for 1024.\<close>

definition pageacct_pagesize :: "u8 list \<Rightarrow> u32" where
  "pageacct_pagesize header =
     (let sz = push_bit 8 (ucast (header ! 16)) OR ucast (header ! 17);
          sz = (if sz = 1 then 65536 else sz);
          sz = (if sz = 0 then 1024 else sz)
      in sz)"

text \<open>\<open>readHeader\<close> of the earlier copy of freelistck.c (and of freelistfind.c):
  \<open>(header[16]<<8) | (header[17]<<16)\<close>, then 0 and 1 both replaced by 65536.\<close>

definition freelistck_old_pagesize :: "u8 list \<Rightarrow> u32" where
  "freelistck_old_pagesize header =
     (let sz = push_bit 8 (ucast (header ! 16)) OR push_bit 16 (ucast (header ! 17));
          sz = (if sz = 0 then 65536 else sz);
          sz = (if sz = 1 then 65536 else sz)
      in sz)"

text \<open>\<open>readPageSize\<close> of dumprow.c, pageowner.c and tablewalk.c: only the value 1 is special.\<close>

definition readPageSize :: "u8 list \<Rightarrow> u32" where
  "readPageSize header =
     (let sz = read16 header 16;
          sz = (if sz = 1 then 65536 else sz)
      in sz)"

text \<open>The 16-byte magic string \<open>SQLite format 3\<close> with its terminating zero.\<close>

definition magic :: "u8 list" where
  "magic = [0x53, 0x51, 0x4c, 0x69, 0x74, 0x65, 0x20, 0x66,
            0x6f, 0x72, 0x6d, 0x61, 0x74, 0x20, 0x33, 0x00]"

text \<open>A 100-byte header whose page-size field holds the two bytes \<open>hi\<close>, \<open>lo\<close> and whose
  other fields are zero.\<close>

definition header_with_pagesize :: "u8 \<Rightarrow> u8 \<Rightarrow> u8 list" where
  "header_with_pagesize hi lo = magic @ [hi, lo] @ replicate 82 0"


section \<open>Local payload length of a cell with overflow\<close>

text \<open>pageacct.c, \<open>walkBtree\<close>: with \<open>usable = pagesize - reserved\<close>,
  \<open>surplus = minLocal + (nPayload - minLocal) % (usable - 4)\<close> is computed in 64-bit signed
  arithmetic and stored in a \<open>u32\<close>; the local length is \<open>surplus\<close> if it does not exceed
  \<open>maxLocal\<close>, and \<open>minLocal\<close> otherwise.\<close>

definition minLocal_of :: "u32 \<Rightarrow> u32" where
  "minLocal_of usable = ((usable - 12) * 32 div 255) - 23"

definition maxLocal_table :: "u32 \<Rightarrow> u32" where
  "maxLocal_table usable = usable - 35"

definition maxLocal_index :: "u32 \<Rightarrow> u32" where
  "maxLocal_index usable = ((usable - 12) * 64 div 255) - 23"

definition pageacct_localSize :: "u32 \<Rightarrow> u32 \<Rightarrow> u32 \<Rightarrow> u64 \<Rightarrow> u32" where
  "pageacct_localSize usable maxLocal minLocal nPayload =
     (let surplus = (ucast (ucast minLocal
                       + i64_rem (nPayload - ucast minLocal) (ucast (usable - 4))) :: u32)
      in if surplus \<le> maxLocal then surplus else minLocal)"

text \<open>dumprow.c, \<open>searchLeaf\<close> (the same lines are in pageowner.c): the local length of a
  table-leaf cell, in unsigned 64-bit arithmetic stored in a \<open>uint32_t\<close>.\<close>

definition searchLeaf_local :: "u32 \<Rightarrow> u32 \<Rightarrow> u64 \<Rightarrow> u32" where
  "searchLeaf_local pageSize reservedSpace payloadSize =
     (let usableSize = pageSize - reservedSpace;
          maxLocal = usableSize - 35;
          minLocal = ((usableSize - 12) * 32 div 255) - 23
      in if payloadSize \<le> ucast maxLocal then ucast payloadSize
         else ucast (ucast minLocal
                + (payloadSize - ucast minLocal) mod ucast (usableSize - 4)))"

text \<open>tablewalk.c, \<open>processLeafCell\<close>: the same computation from \<open>usableSize\<close>.\<close>

definition processLeafCell_local :: "u32 \<Rightarrow> u64 \<Rightarrow> u32" where
  "processLeafCell_local usableSize payloadSize =
     (let maxLocal = usableSize - 35;
          minLocal = ((usableSize - 12) * 32 div 255) - 23
      in if payloadSize \<le> ucast maxLocal then ucast payloadSize
         else ucast (ucast minLocal
                + (payloadSize - ucast minLocal) mod ucast (usableSize - 4)))"


section \<open>The pager of pageacct.c\<close>

text \<open>The global struct \<open>g\<close> of pageacct.c, split in two: the fields fixed by \<open>readHeader\<close>
  together with the bytes of the file (record \<open>db\<close>), and the classification state the walkers
  write (record \<open>acct\<close>, below).\<close>

record db =
  pagesize :: u32
  mxPage :: u32
  headerPageCount :: u32
  firstFreelist :: u32
  freelistCount :: u32
  reservedSpace :: u32
  autoVacuum :: u32
  contents :: "u8 list"

text \<open>\<open>readBytes\<close>: seek to \<open>offset\<close> and read \<open>n\<close> bytes; a short read is a failure
  (\<open>NULL\<close> in the source, \<open>None\<close> here).\<close>

definition readBytes :: "u8 list \<Rightarrow> nat \<Rightarrow> nat \<Rightarrow> u8 list option" where
  "readBytes f offset n =
     (if offset + n \<le> length f then Some (take n (drop offset f)) else None)"

definition readPage :: "db \<Rightarrow> u32 \<Rightarrow> u8 list option" where
  "readPage g pgno =
     (if pgno < 1 \<or> pgno > mxPage g then None
      else readBytes (contents g) (unat (pgno - 1) * unat (pagesize g)) (unat (pagesize g)))"

text \<open>\<open>readHeader\<close> of pageacct.c. \<open>None\<close> is the return value 1.\<close>

definition readHeader :: "u8 list \<Rightarrow> db option" where
  "readHeader f =
     (case readBytes f 0 100 of
        None \<Rightarrow> None
      | Some header \<Rightarrow>
          if take 16 header = magic then
            (let ps = pageacct_pagesize header
             in Some \<lparr> pagesize = ps,
                       mxPage = of_nat ((length f + unat ps - 1) div unat ps),
                       headerPageCount = get32 header 28,
                       firstFreelist = get32 header 32,
                       freelistCount = get32 header 36,
                       reservedSpace = ucast (header ! 20),
                       autoVacuum = get32 header 52,
                       contents = f \<rparr>)
          else None)"


section \<open>Page classification (pageacct.c)\<close>

datatype PageType =
    PAGE_UNKNOWN
  | PAGE_FREELIST_TRUNK
  | PAGE_FREELIST_LEAF
  | PAGE_BTREE_INTERIOR_INDEX
  | PAGE_BTREE_INTERIOR_TABLE
  | PAGE_BTREE_LEAF_INDEX
  | PAGE_BTREE_LEAF_TABLE
  | PAGE_OVERFLOW
  | PAGE_PTRMAP
  | PAGE_LOCKBYTE
  | PAGE_ORPHAN_BTREE_INTERIOR_INDEX
  | PAGE_ORPHAN_BTREE_INTERIOR_TABLE
  | PAGE_ORPHAN_BTREE_LEAF_INDEX
  | PAGE_ORPHAN_BTREE_LEAF_TABLE
  | PAGE_ORPHAN_OVERFLOW
  | PAGE_ORPHAN_EMPTY

text \<open>The diagnostics the tools print while walking: the CONFLICT line of \<open>markPage\<close>
  (page, old type, old parent, new type, new parent) and, in freelistck.c and freelistfind.c,
  the line about an invalid leaf count of a trunk (page, stored count, maximum).\<close>

datatype diag =
    Conflict u32 PageType u32 PageType u32
  | InvalidLeafCount u32 u32 u32

text \<open>The ways a freelist walk returns 1.\<close>

datatype walk_error = FreelistCycle u32 | ReadFailed u32

record acct =
  pageTypes :: "u32 \<Rightarrow> PageType"
  pageParents :: "u32 \<Rightarrow> u32"
  ptrmapGhostCount :: u32
  ptrmapMissingCount :: u32
  orphanCount :: u32
  diags :: "diag list"

text \<open>The arrays as \<open>calloc\<close> leaves them.\<close>

definition acct_init :: acct where
  "acct_init = \<lparr> pageTypes = (\<lambda>p. PAGE_UNKNOWN), pageParents = (\<lambda>p. 0),
                 ptrmapGhostCount = 0, ptrmapMissingCount = 0, orphanCount = 0, diags = [] \<rparr>"

definition markPage :: "db \<Rightarrow> u32 \<Rightarrow> PageType \<Rightarrow> u32 \<Rightarrow> acct \<Rightarrow> acct" where
  "markPage g pgno type parent st =
     (if pgno < 1 \<or> pgno > mxPage g then st
      else
        (let st1 = (if pageTypes st pgno \<noteq> PAGE_UNKNOWN \<and> pageTypes st pgno \<noteq> type
                    then st \<lparr> diags := diags st @
                           [Conflict pgno (pageTypes st pgno) (pageParents st pgno) type parent] \<rparr>
                    else st)
         in st1 \<lparr> pageTypes := (pageTypes st1)(pgno := type),
                  pageParents := (pageParents st1)(pgno := parent) \<rparr>))"


section \<open>Freelist walkers\<close>

text \<open>\<open>walkFreelist\<close> of pageacct.c. The \<open>while\<close> loop can run forever (the cycle check
  remembers only the first 10000 trunks), so the loop takes fuel and \<open>None\<close> means that the
  fuel ran out. \<open>visited\<close> is the array of that name, in order.\<close>

fun walkFreelist_loop ::
  "nat \<Rightarrow> db \<Rightarrow> u32 \<Rightarrow> u32 list \<Rightarrow> acct \<Rightarrow> (walk_error + acct) option" where
  "walkFreelist_loop 0 g pgno visited st = None"
| "walkFreelist_loop (Suc n) g pgno visited st =
     (if pgno = 0 then Some (Inr st)
      else if pgno \<in> set visited then Some (Inl (FreelistCycle pgno))
      else
        (let visited' = (if length visited < 10000 then visited @ [pgno] else visited)
         in case readPage g pgno of
              None \<Rightarrow> Some (Inl (ReadFailed pgno))
            | Some page \<Rightarrow>
                (let st1 = markPage g pgno PAGE_FREELIST_TRUNK 0 st;
                     nextTrunk = get32 page 0;
                     numLeaves = get32 page 4;
                     maxLeaves = (pagesize g - 8) div 4;
                     numLeaves = (if numLeaves > maxLeaves then maxLeaves else numLeaves);
                     st2 = fold (\<lambda>i s. markPage g (get32 page (8 + i * 4))
                                          PAGE_FREELIST_LEAF pgno s)
                             [0..<unat numLeaves] st1
                 in walkFreelist_loop n g nextTrunk visited' st2)))"

definition walkFreelist :: "nat \<Rightarrow> db \<Rightarrow> acct \<Rightarrow> (walk_error + acct) option" where
  "walkFreelist n g st = walkFreelist_loop n g (firstFreelist g) [] st"

text \<open>\<open>walkFreelist\<close> of freelistck.c. Its state is the list built by \<open>addFreelistPage\<close>
  (page, is-trunk flag, parent), the two counters, and the diagnostics. Its \<open>readPage\<close> is
  the one above with a message on failure.\<close>

record flck =
  freelist :: "(u32 \<times> bool \<times> u32) list"
  trunkCount :: u32
  leafCount :: u32
  ck_diags :: "diag list"

definition flck_init :: flck where
  "flck_init = \<lparr> freelist = [], trunkCount = 0, leafCount = 0, ck_diags = [] \<rparr>"

definition addFreelistPage :: "u32 \<Rightarrow> bool \<Rightarrow> u32 \<Rightarrow> flck \<Rightarrow> flck" where
  "addFreelistPage pgno isTrunk parent st =
     (let st1 = st \<lparr> freelist := freelist st @ [(pgno, isTrunk, parent)] \<rparr>
      in if isTrunk then st1 \<lparr> trunkCount := trunkCount st1 + 1 \<rparr>
         else st1 \<lparr> leafCount := leafCount st1 + 1 \<rparr>)"

fun freelistck_walk_loop ::
  "nat \<Rightarrow> db \<Rightarrow> u32 \<Rightarrow> u32 list \<Rightarrow> flck \<Rightarrow> (walk_error + flck) option" where
  "freelistck_walk_loop 0 g pgno visited st = None"
| "freelistck_walk_loop (Suc n) g pgno visited st =
     (if pgno = 0 then Some (Inr st)
      else if pgno \<in> set visited then Some (Inl (FreelistCycle pgno))
      else
        (let visited' = (if length visited < 10000 then visited @ [pgno] else visited)
         in case readPage g pgno of
              None \<Rightarrow> Some (Inl (ReadFailed pgno))
            | Some page \<Rightarrow>
                (let st1 = addFreelistPage pgno True 0 st;
                     nextTrunk = get32 page 0;
                     numLeaves = get32 page 4;
                     maxLeaves = (pagesize g - 8) div 4;
                     st2 = (if numLeaves > maxLeaves
                            then st1 \<lparr> ck_diags := ck_diags st1 @
                                         [InvalidLeafCount pgno numLeaves maxLeaves] \<rparr>
                            else st1);
                     numLeaves = (if numLeaves > maxLeaves then maxLeaves else numLeaves);
                     st3 = fold (\<lambda>i s. addFreelistPage (get32 page (8 + i * 4)) False pgno s)
                             [0..<unat numLeaves] st2
                 in freelistck_walk_loop n g nextTrunk visited' st3)))"

definition freelistck_walkFreelist :: "nat \<Rightarrow> db \<Rightarrow> (walk_error + flck) option" where
  "freelistck_walkFreelist n g = freelistck_walk_loop n g (firstFreelist g) [] flck_init"

text \<open>\<open>walkFreelist\<close> of freelistfind.c: the bitmap \<open>inFreelist\<close>, the two local counters and
  the diagnostics.\<close>

record flfind =
  inFreelist :: "u32 \<Rightarrow> bool"
  ff_trunkCount :: u32
  ff_leafCount :: u32
  ff_diags :: "diag list"

definition flfind_init :: flfind where
  "flfind_init = \<lparr> inFreelist = (\<lambda>p. False), ff_trunkCount = 0, ff_leafCount = 0,
                   ff_diags = [] \<rparr>"

definition markFreelist :: "db \<Rightarrow> u32 \<Rightarrow> flfind \<Rightarrow> flfind" where
  "markFreelist g pgno st =
     (if pgno \<ge> 1 \<and> pgno \<le> mxPage g then st \<lparr> inFreelist := (inFreelist st)(pgno := True) \<rparr>
      else st)"

fun freelistfind_walk_loop ::
  "nat \<Rightarrow> db \<Rightarrow> u32 \<Rightarrow> u32 list \<Rightarrow> flfind \<Rightarrow> (walk_error + flfind) option" where
  "freelistfind_walk_loop 0 g pgno visited st = None"
| "freelistfind_walk_loop (Suc n) g pgno visited st =
     (if pgno = 0 then Some (Inr st)
      else if pgno \<in> set visited then Some (Inl (FreelistCycle pgno))
      else
        (let visited' = (if length visited < 10000 then visited @ [pgno] else visited)
         in case readPage g pgno of
              None \<Rightarrow> Some (Inl (ReadFailed pgno))
            | Some page \<Rightarrow>
                (let st1 = markFreelist g pgno (st \<lparr> ff_trunkCount := ff_trunkCount st + 1 \<rparr>);
                     nextTrunk = get32 page 0;
                     numLeaves = get32 page 4;
                     maxLeaves = (pagesize g - 8) div 4;
                     st2 = (if numLeaves > maxLeaves
                            then st1 \<lparr> ff_diags := ff_diags st1 @
                                         [InvalidLeafCount pgno numLeaves maxLeaves] \<rparr>
                            else st1);
                     numLeaves = (if numLeaves > maxLeaves then maxLeaves else numLeaves);
                     st3 = fold (\<lambda>i s. (let s1 = markFreelist g (get32 page (8 + i * 4)) s
                                          in s1 \<lparr> ff_leafCount := ff_leafCount s1 + 1 \<rparr>))
                             [0..<unat numLeaves] st2
                 in freelistfind_walk_loop n g nextTrunk visited' st3)))"

definition freelistfind_walkFreelist :: "nat \<Rightarrow> db \<Rightarrow> (walk_error + flfind) option" where
  "freelistfind_walkFreelist n g = freelistfind_walk_loop n g (firstFreelist g) [] flfind_init"


section \<open>The b-tree walker of pageacct.c\<close>

text \<open>The overflow-chain loop, which \<open>walkBtree\<close> of pageacct.c contains three times in the same
  words (interior index cells, table leaf cells, index leaf cells). It stops at a page number
  outside \<open>1..mxPage\<close>, at a page that is already classified, and after a failed read. Every
  round classifies one more page, which is the termination argument.\<close>

function walkOverflow :: "db \<Rightarrow> u32 \<Rightarrow> u32 \<Rightarrow> acct \<Rightarrow> acct" where
  "walkOverflow g pgno overflowPage st =
     (if overflowPage > 0 \<and> overflowPage \<le> mxPage g then
        (if pageTypes st overflowPage \<noteq> PAGE_UNKNOWN then st
         else
           (let st1 = markPage g overflowPage PAGE_OVERFLOW pgno st
            in case readPage g overflowPage of
                 None \<Rightarrow> st1
               | Some ovfl \<Rightarrow> walkOverflow g pgno (get32 ovfl 0) st1))
      else st)"
  by pat_completeness auto
termination
proof (relation "measure (\<lambda>(g, pgno, overflowPage, st).
                   card {p. pageTypes st p = PAGE_UNKNOWN})")
  show "wf (measure (\<lambda>(g, pgno, overflowPage, st). card {p. pageTypes st p = PAGE_UNKNOWN}))"
    by simp
next
  fix g :: db and pgno overflowPage :: u32 and st :: acct and st1 ovfl
  assume r: "0 < overflowPage \<and> overflowPage \<le> mxPage g"
    and u: "\<not> pageTypes st overflowPage \<noteq> PAGE_UNKNOWN"
    and s: "st1 = markPage g overflowPage PAGE_OVERFLOW pgno st"
  have "\<not> (overflowPage < 1 \<or> overflowPage > mxPage g)"
    using r by (auto simp: word_less_1 not_less)
  then have t: "pageTypes st1 = (pageTypes st)(overflowPage := PAGE_OVERFLOW)"
    using u by (simp add: s markPage_def Let_def)
  have "{p. pageTypes st1 p = PAGE_UNKNOWN} \<subset> {p. pageTypes st p = PAGE_UNKNOWN}"
    using u by (auto simp: t)
  then have "card {p. pageTypes st1 p = PAGE_UNKNOWN} < card {p. pageTypes st p = PAGE_UNKNOWN}"
    by (intro psubset_card_mono) simp_all
  then show "((g, pgno, get32 ovfl 0, st1), (g, pgno, overflowPage, st))
        \<in> measure (\<lambda>(g, pgno, overflowPage, st). card {p. pageTypes st p = PAGE_UNKNOWN})"
    by simp
qed

declare walkOverflow.simps [simp del]


text \<open>Pointer-map positions and the validation of a candidate page.\<close>

definition isPtrmapPosition :: "db \<Rightarrow> u32 \<Rightarrow> bool" where
  "isPtrmapPosition g pgno =
     (let usableSize = pagesize g - reservedSpace g;
          pagesPerPtrmap = usableSize div 5;
          firstPtrmap = pagesPerPtrmap + 1
      in if pgno = 1 then False
         else if pgno < firstPtrmap then False
         else (pgno - firstPtrmap) mod (pagesPerPtrmap + 1) = 0)"

definition isPtrmapPage :: "db \<Rightarrow> u32 \<Rightarrow> bool" where
  "isPtrmapPage g pgno = (if autoVacuum g = 0 then False else isPtrmapPosition g pgno)"

function isValidPtrmapData_loop :: "db \<Rightarrow> u8 list \<Rightarrow> nat \<Rightarrow> nat \<Rightarrow> bool \<Rightarrow> bool" where
  "isValidPtrmapData_loop g page entriesPerPage i hasValidEntry =
     (if i < entriesPerPage then
        (let type = page ! (i * 5);
             parent = get32 page (i * 5 + 1)
         in if type > 5 then False
            else if type \<noteq> 0 then
              (if parent > mxPage g then False
               else isValidPtrmapData_loop g page entriesPerPage (i + 1) True)
            else isValidPtrmapData_loop g page entriesPerPage (i + 1) hasValidEntry)
      else hasValidEntry)"
  by pat_completeness auto
termination
  by (relation "measure (\<lambda>(g, page, entriesPerPage, i, hasValidEntry). entriesPerPage - i)") auto

declare isValidPtrmapData_loop.simps [simp del]

definition isValidPtrmapData :: "db \<Rightarrow> u8 list \<Rightarrow> bool" where
  "isValidPtrmapData g page =
     isValidPtrmapData_loop g page (unat ((pagesize g - reservedSpace g) div 5)) 0 False"

text \<open>The block of \<open>walkBtree\<close> that counts a ghost pointer-map page when auto-vacuum is off.\<close>

definition ghostCheck :: "db \<Rightarrow> u32 \<Rightarrow> acct \<Rightarrow> acct" where
  "ghostCheck g pgno st =
     (if autoVacuum g = 0 \<and> isPtrmapPosition g pgno then
        (case readPage g pgno of
           None \<Rightarrow> st
         | Some ptrmapCheck \<Rightarrow>
             if isValidPtrmapData g ptrmapCheck
             then st \<lparr> ptrmapGhostCount := ptrmapGhostCount st + 1 \<rparr>
             else st)
      else st)"

text \<open>The \<open>switch\<close> on the page type byte; \<open>None\<close> is the \<open>default\<close> branch.\<close>

definition btree_type :: "u8 \<Rightarrow> PageType option" where
  "btree_type pageType =
     (if pageType = 2 then Some PAGE_BTREE_INTERIOR_INDEX
      else if pageType = 5 then Some PAGE_BTREE_INTERIOR_TABLE
      else if pageType = 10 then Some PAGE_BTREE_LEAF_INDEX
      else if pageType = 13 then Some PAGE_BTREE_LEAF_TABLE
      else None)"

text \<open>Once the payload size of a cell is known: if it exceeds \<open>maxLocal\<close>, compute the local
  length, check that the page number after the local payload lies inside the page, and walk
  the chain. \<open>cell\<close> is the offset of the payload inside the page. The comparison of the
  \<open>i64\<close> payload size with the \<open>u32\<close> bound is signed.\<close>

definition cellOverflow :: "db \<Rightarrow> u8 list \<Rightarrow> u32 \<Rightarrow> nat \<Rightarrow> u32 \<Rightarrow> u64 \<Rightarrow> acct \<Rightarrow> acct" where
  "cellOverflow g page pgno cell maxLocal nPayload st =
     (let usable = pagesize g - reservedSpace g;
          minLocal = minLocal_of usable
      in if ucast maxLocal <s nPayload then
           (let localSize = pageacct_localSize usable maxLocal minLocal nPayload
            in if (of_nat cell + localSize + 4 :: u32) \<le> pagesize g
               then walkOverflow g pgno (get32 page (cell + unat localSize)) st
               else st)
         else st)"

text \<open>The bodies of the two cell loops that look for overflow: cells of an interior index
  page (skip the 4-byte child pointer) and cells of a leaf page (skip the rowid on a table
  leaf).\<close>

definition interiorIndexCell :: "db \<Rightarrow> u8 list \<Rightarrow> u32 \<Rightarrow> nat \<Rightarrow> nat \<Rightarrow> acct \<Rightarrow> acct" where
  "interiorIndexCell g page pgno cellStart i st =
     (let cellOffset = read16 page (cellStart + i * 2)
      in if cellOffset < pagesize g - 4 - 4 then
           (let cell = unat cellOffset + 4;
                (nPayload, n) = decodeVarint page cell;
                cell = cell + n
            in if 0 <s nPayload \<and> nPayload <s 1073741824
               then cellOverflow g page pgno cell
                      (maxLocal_index (pagesize g - reservedSpace g)) nPayload st
               else st)
         else st)"

definition leafCell :: "db \<Rightarrow> u8 list \<Rightarrow> u32 \<Rightarrow> u8 \<Rightarrow> nat \<Rightarrow> nat \<Rightarrow> acct \<Rightarrow> acct" where
  "leafCell g page pgno pageType cellStart i st =
     (let cellOffset = read16 page (cellStart + i * 2)
      in if cellOffset < pagesize g - 4 then
           (let cell = unat cellOffset;
                (nPayload, n) = decodeVarint page cell;
                cell = cell + n;
                cell = (if pageType = 13 then cell + snd (decodeVarint page cell) else cell)
            in if 0 <s nPayload \<and> nPayload <s 1073741824 then
                 (if pageType = 13
                  then cellOverflow g page pgno cell
                         (maxLocal_table (pagesize g - reservedSpace g)) nPayload st
                  else if pageType = 10
                  then cellOverflow g page pgno cell
                         (maxLocal_index (pagesize g - reservedSpace g)) nPayload st
                  else st)
               else st)
         else st)"

text \<open>\<open>walkBtree\<close>. Each call owns its page buffer, so the page read on entry is the one the
  loops see. The recursion is bounded by \<open>depth\<close>.\<close>

function walkBtree :: "db \<Rightarrow> u32 \<Rightarrow> u32 \<Rightarrow> int \<Rightarrow> acct \<Rightarrow> acct" where
  "walkBtree g pgno parent depth st =
     (if pgno < 1 \<or> pgno > mxPage g then st
      else if pageTypes st pgno \<noteq> PAGE_UNKNOWN then st
      else if depth > 50 then st
      else if isPtrmapPage g pgno then st
      else
        (let st1 = ghostCheck g pgno st
         in case readPage g pgno of
              None \<Rightarrow> st1
            | Some page \<Rightarrow>
                (let hdr = (if pgno = 1 then 100 else 0);
                     pageType = page ! hdr
                 in case btree_type pageType of
                      None \<Rightarrow> st1
                    | Some ourType \<Rightarrow>
                        (let st2 = markPage g pgno ourType parent st1;
                             nCell = read16 page (hdr + 3);
                             cells = [0..<min (unat nCell) (unat (pagesize g div 2))];
                             st3 = (if pageType = 2 \<or> pageType = 5 then
                                      walkBtree g (get32 page (hdr + 8)) pgno (depth + 1)
                                        (fold (\<lambda>i s.
                                           (let cellOffset = read16 page (hdr + 12 + i * 2)
                                            in if cellOffset \<ge> 4 \<and> cellOffset < pagesize g
                                               then walkBtree g (get32 page (unat cellOffset))
                                                      pgno (depth + 1) s
                                               else s)) cells st2)
                                    else st2);
                             st4 = (if pageType = 2
                                    then fold (interiorIndexCell g page pgno (hdr + 12)) cells st3
                                    else st3);
                             st5 = (if pageType = 13 \<or> pageType = 10
                                    then fold (leafCell g page pgno pageType (hdr + 8)) cells st4
                                    else st4)
                         in st5))))"
  by pat_completeness auto
termination
  by (relation "measure (\<lambda>(g, pgno, parent, depth, st). nat (51 - depth))") auto

declare walkBtree.simps [simp del]


section \<open>The account query (pageacct.c, \<open>main\<close>)\<close>

text \<open>\<open>walkAllBtrees\<close> walks page 1 and then every root page the SQLite library returns for
  \<open>SELECT name, rootpage FROM sqlite_master WHERE rootpage > 0\<close>. The library is outside the
  tool: \<open>schema\<close> is the list of root pages it delivers, \<open>None\<close> when it cannot open or
  prepare.\<close>

datatype exit_error = WalkFailed walk_error | SchemaUnavailable | HeaderInvalid

definition walkAllBtrees :: "db \<Rightarrow> u32 list option \<Rightarrow> acct \<Rightarrow> exit_error + acct" where
  "walkAllBtrees g schema st =
     (let st1 = walkBtree g 1 0 0 st
      in case schema of
           None \<Rightarrow> Inl SchemaUnavailable
         | Some roots \<Rightarrow> Inr (fold (\<lambda>rootpage s. walkBtree g rootpage 0 0 s) roots st1))"

text \<open>\<open>markPtrmapPages\<close>. The loop variable is a \<open>u32\<close> advanced by the stride, which can
  wrap around for a file of almost \<open>2^32\<close> pages, so the loop takes fuel.\<close>

definition markPtrmapPages_body :: "db \<Rightarrow> u32 \<Rightarrow> acct \<Rightarrow> acct" where
  "markPtrmapPages_body g pgno st =
     (if pageTypes st pgno \<noteq> PAGE_UNKNOWN then
        (if autoVacuum g \<noteq> 0
         then st \<lparr> ptrmapMissingCount := ptrmapMissingCount st + 1 \<rparr> else st)
      else
        (case readPage g pgno of
           None \<Rightarrow> st
         | Some page \<Rightarrow>
             if isValidPtrmapData g page then
               (let st1 = markPage g pgno PAGE_PTRMAP 0 st
                in if autoVacuum g = 0
                   then st1 \<lparr> ptrmapGhostCount := ptrmapGhostCount st1 + 1 \<rparr> else st1)
             else
               (if autoVacuum g \<noteq> 0
                then st \<lparr> ptrmapMissingCount := ptrmapMissingCount st + 1 \<rparr> else st)))"

fun markPtrmapPages_loop :: "nat \<Rightarrow> db \<Rightarrow> u32 \<Rightarrow> acct \<Rightarrow> acct option" where
  "markPtrmapPages_loop 0 g pgno st = None"
| "markPtrmapPages_loop (Suc n) g pgno st =
     (if pgno \<le> mxPage g then
        markPtrmapPages_loop n g (pgno + ((pagesize g - reservedSpace g) div 5 + 1))
          (markPtrmapPages_body g pgno st)
      else Some st)"

definition markPtrmapPages :: "nat \<Rightarrow> db \<Rightarrow> acct \<Rightarrow> acct option" where
  "markPtrmapPages n g st =
     markPtrmapPages_loop n g ((pagesize g - reservedSpace g) div 5 + 1)
       (st \<lparr> ptrmapGhostCount := 0, ptrmapMissingCount := 0 \<rparr>)"

text \<open>\<open>classifyOrphanedPages\<close> and the counting loop of \<open>printReport\<close> run
  \<open>for(i=1; i<=g.mxPage; i++)\<close> on a \<open>u32\<close>: with \<open>mxPage = 0xFFFFFFFF\<close> the loop never ends,
  which is the result \<open>None\<close>.\<close>

definition isAllZeros :: "u8 list \<Rightarrow> nat \<Rightarrow> bool" where
  "isAllZeros data len = list_all (\<lambda>b. b = 0) (take len data)"

definition orphan :: "u32 \<Rightarrow> PageType \<Rightarrow> acct \<Rightarrow> acct" where
  "orphan i t st = st \<lparr> pageTypes := (pageTypes st)(i := t), orphanCount := orphanCount st + 1 \<rparr>"

definition classifyOrphan :: "db \<Rightarrow> u32 \<Rightarrow> acct \<Rightarrow> acct" where
  "classifyOrphan g i st =
     (if pageTypes st i \<noteq> PAGE_UNKNOWN then st
      else
        (case readPage g i of
           None \<Rightarrow> st
         | Some page \<Rightarrow>
             if isAllZeros page (unat (pagesize g)) then orphan i PAGE_ORPHAN_EMPTY st
             else
               (let pageType = page ! 0;
                    nextPage = get32 page 0
                in if pageType = 0x0d then orphan i PAGE_ORPHAN_BTREE_LEAF_TABLE st
                   else if pageType = 0x0a then orphan i PAGE_ORPHAN_BTREE_LEAF_INDEX st
                   else if pageType = 0x05 then orphan i PAGE_ORPHAN_BTREE_INTERIOR_TABLE st
                   else if pageType = 0x02 then orphan i PAGE_ORPHAN_BTREE_INTERIOR_INDEX st
                   else if pageType = 0x00
                           \<and> (nextPage = 0 \<or> (nextPage > 0 \<and> nextPage < mxPage g))
                        then orphan i PAGE_ORPHAN_OVERFLOW st
                   else st)))"

definition all_pages :: "db \<Rightarrow> u32 list" where
  "all_pages g = map of_nat [1..<Suc (unat (mxPage g))]"

definition classifyOrphanedPages :: "db \<Rightarrow> acct \<Rightarrow> acct option" where
  "classifyOrphanedPages g st =
     (if mxPage g = 0xFFFFFFFF then None
      else Some (fold (classifyOrphan g) (all_pages g) (st \<lparr> orphanCount := 0 \<rparr>)))"

definition counts :: "db \<Rightarrow> acct \<Rightarrow> PageType \<Rightarrow> u32" where
  "counts g st t = of_nat (length (filter (\<lambda>i. pageTypes st i = t) (all_pages g)))"

record report =
  final :: acct
  count_of :: "PageType \<Rightarrow> u32"

definition printReport :: "db \<Rightarrow> acct \<Rightarrow> report" where
  "printReport g st = \<lparr> final = st, count_of = counts g st \<rparr>"

definition account :: "nat \<Rightarrow> db \<Rightarrow> u32 list option \<Rightarrow> (exit_error + report) option" where
  "account n g schema =
     (case walkFreelist n g acct_init of
        None \<Rightarrow> None
      | Some (Inl e) \<Rightarrow> Some (Inl (WalkFailed e))
      | Some (Inr st1) \<Rightarrow>
          (case markPtrmapPages n g st1 of
             None \<Rightarrow> None
           | Some st2 \<Rightarrow>
               (case walkAllBtrees g schema st2 of
                  Inl e \<Rightarrow> Some (Inl e)
                | Inr st3 \<Rightarrow>
                    (case classifyOrphanedPages g st3 of
                       None \<Rightarrow> None
                     | Some st4 \<Rightarrow> Some (Inr (printReport g st4))))))"



section \<open>dumprow.c\<close>

text \<open>What \<open>searchLeaf\<close> prints about the cell it found: the cell offset, the payload size, the
  local payload length and the first overflow page, if it reports one.\<close>

record hit =
  hit_cellOffset :: u32
  hit_payloadSize :: u64
  hit_local :: u32
  hit_overflow :: "u32 option"

text \<open>\<open>DbContext\<close> of dumprow.c; \<open>dumped\<close> stands for the output of \<open>searchLeaf\<close>.\<close>

record DbContext =
  pageSize :: u32
  ctx_reservedSpace :: u32
  totalPages :: u32
  ctx_db :: "u8 list"
  pageBuf :: "u8 list"
  targetRowid :: u64
  found :: bool
  dumped :: "hit option"

text \<open>\<open>readPage\<close> of dumprow.c reads into the caller's buffer: the result is the success flag
  and the buffer afterwards (a short read overwrites a prefix).\<close>

definition dumprow_readPage :: "DbContext \<Rightarrow> u32 \<Rightarrow> u8 list \<Rightarrow> bool \<times> u8 list" where
  "dumprow_readPage ctx pgno buf =
     (if pgno = 0 \<or> pgno > totalPages ctx then (False, buf)
      else
        (let got = take (unat (pageSize ctx))
                     (drop (unat (pgno - 1) * unat (pageSize ctx)) (ctx_db ctx))
         in (length got = unat (pageSize ctx), got @ drop (length got) buf)))"

function searchLeaf_loop :: "DbContext \<Rightarrow> u8 list \<Rightarrow> nat \<Rightarrow> nat \<Rightarrow> nat \<Rightarrow> DbContext" where
  "searchLeaf_loop ctx page headerOffset cellCount i =
     (if i < cellCount then
        (let cellOffset = read16 page (headerOffset + 8 + 12 + i * 2)
         in if cellOffset < of_nat (headerOffset + 8)
            then searchLeaf_loop ctx page headerOffset cellCount (i + 1)
            else if cellOffset \<ge> pageSize ctx - ctx_reservedSpace ctx
            then searchLeaf_loop ctx page headerOffset cellCount (i + 1)
            else
              (let (payloadSize, n1) = readVarint page (unat cellOffset);
                   (rowid, n2) = readVarint page (unat cellOffset + n1);
                   n = n1 + n2
               in if rowid = targetRowid ctx then
                    (let local = searchLeaf_local (pageSize ctx) (ctx_reservedSpace ctx)
                                   payloadSize;
                         overflowPgno =
                           (if payloadSize > ucast local
                            then Some (read32 page (unat (cellOffset + of_nat n + local)))
                            else None)
                     in ctx \<lparr> found := True,
                              dumped := Some \<lparr> hit_cellOffset = cellOffset,
                                               hit_payloadSize = payloadSize,
                                               hit_local = local,
                                               hit_overflow = overflowPgno \<rparr> \<rparr>)
                  else searchLeaf_loop ctx page headerOffset cellCount (i + 1)))
      else ctx)"
  by pat_completeness auto
termination
  by (relation "measure (\<lambda>(ctx, page, headerOffset, cellCount, i). cellCount - i)") auto

declare searchLeaf_loop.simps [simp del]

definition searchLeaf :: "DbContext \<Rightarrow> u8 list \<Rightarrow> nat \<Rightarrow> DbContext" where
  "searchLeaf ctx page headerOffset =
     searchLeaf_loop ctx page headerOffset (unat (read16 page (headerOffset + 3))) 0"

text \<open>\<open>walkBtree\<close> of dumprow.c. It has no visited set and no depth limit, so the recursion
  can be endless: the fuel bounds the depth of the recursion and \<open>None\<close> means that it was
  not enough. All calls share the buffer \<open>pageBuf\<close>, so after a child returns the loop reads
  the bytes the child left there.\<close>

function dumprow_walkBtree :: "nat \<Rightarrow> DbContext \<Rightarrow> u32 \<Rightarrow> DbContext option"
  and dumprow_walkCells :: "nat \<Rightarrow> DbContext \<Rightarrow> nat \<Rightarrow> nat \<Rightarrow> nat \<Rightarrow> DbContext option"
where
  "dumprow_walkBtree 0 ctx pgno = None"
| "dumprow_walkBtree (Suc n) ctx pgno =
     (if found ctx then Some ctx
      else if pgno = 0 \<or> pgno > totalPages ctx then Some ctx
      else
        (let (ok, buf) = dumprow_readPage ctx pgno (pageBuf ctx);
             ctx1 = ctx \<lparr> pageBuf := buf \<rparr>
         in if \<not> ok then Some ctx1
            else
              (let headerOffset = (if pgno = 1 then 100 else 0);
                   pageType = buf ! headerOffset
               in if pageType = 0x0d then Some (searchLeaf ctx1 buf headerOffset)
                  else if pageType = 0x05
                  then dumprow_walkCells n ctx1 headerOffset
                         (unat (read16 buf (headerOffset + 3))) 0
                  else Some ctx1)))"
| "dumprow_walkCells n ctx headerOffset cellCount i =
     (if i < cellCount then
        (let cellOffset = read16 (pageBuf ctx) (headerOffset + 8 + i * 2)
         in if cellOffset < of_nat (headerOffset + 8)
            then dumprow_walkCells n ctx headerOffset cellCount (i + 1)
            else
              (let childPgno = read32 (pageBuf ctx) (unat cellOffset);
                   key = fst (readVarint (pageBuf ctx) (unat cellOffset + 4))
               in if targetRowid ctx \<le> key then
                    (case dumprow_walkBtree n ctx childPgno of
                       None \<Rightarrow> None
                     | Some ctx' \<Rightarrow>
                         if found ctx' then Some ctx'
                         else dumprow_walkCells n ctx' headerOffset cellCount (i + 1))
                  else dumprow_walkCells n ctx headerOffset cellCount (i + 1)))
      else dumprow_walkBtree n ctx (read32 (pageBuf ctx) (headerOffset + 8)))"
  by pat_completeness auto
termination
  by (relation "inv_image (less_than <*lex*> less_than)
        (\<lambda>x. case x of Inl (n, ctx, pgno) \<Rightarrow> (2 * n, 0)
                      | Inr (n, ctx, headerOffset, cellCount, i) \<Rightarrow> (2 * n + 1, cellCount - i))")
     auto

declare dumprow_walkBtree.simps [simp del] dumprow_walkCells.simps [simp del]

section \<open>tablewalk.c\<close>

record WalkContext =
  tw_pageSize :: u32
  tw_reservedSpace :: u32
  findRowid :: u64
  foundTarget :: bool
  leafPagesScanned :: u32
  cellsScanned :: u32
  corruptCells :: u32
  minRowid :: u64
  maxRowid :: u64
  tw_dumped :: "hit option"

definition processLeafCell :: "WalkContext \<Rightarrow> u8 list \<Rightarrow> u32 \<Rightarrow> nat \<Rightarrow> WalkContext" where
  "processLeafCell ctx page cellOffset headerOffset =
     (let usableSize = tw_pageSize ctx - tw_reservedSpace ctx;
          corrupt = ctx \<lparr> corruptCells := corruptCells ctx + 1 \<rparr>
      in if cellOffset < of_nat (headerOffset + 8) then corrupt
         else if cellOffset \<ge> usableSize then corrupt
         else
           (let (payloadSize, n) = readVarint page (unat cellOffset)
            in if n < 1 \<or> n > 9 \<or> cellOffset + of_nat n \<ge> usableSize then corrupt
               else
                 (let (rowid, m) = readVarint page (unat cellOffset + n)
                  in if m < 1 \<or> m > 9 \<or> cellOffset + of_nat n + of_nat m \<ge> usableSize
                     then corrupt
                     else
                       (let ctx1 = ctx \<lparr> cellsScanned := cellsScanned ctx + 1 \<rparr>;
                            ctx2 = (if cellsScanned ctx1 = 1 \<or> rowid < minRowid ctx1
                                    then ctx1 \<lparr> minRowid := rowid \<rparr> else ctx1);
                            ctx3 = (if cellsScanned ctx2 = 1 \<or> rowid > maxRowid ctx2
                                    then ctx2 \<lparr> maxRowid := rowid \<rparr> else ctx2);
                            local = processLeafCell_local usableSize payloadSize;
                            valid = \<not> (cellOffset + of_nat n + of_nat m + local > usableSize);
                            ctx4 = (if valid then ctx3
                                    else ctx3 \<lparr> corruptCells := corruptCells ctx3 + 1 \<rparr>);
                            hasOverflow = (payloadSize > ucast local)
                        in if findRowid ctx4 \<noteq> 0 \<and> rowid = findRowid ctx4 then
                             ctx4 \<lparr> foundTarget := True,
                                    tw_dumped := Some
                                      \<lparr> hit_cellOffset = cellOffset,
                                        hit_payloadSize = payloadSize,
                                        hit_local = local,
                                        hit_overflow =
                                          (if hasOverflow
                                           then Some (read32 page
                                                  (unat (cellOffset + of_nat n + of_nat m + local)))
                                           else None) \<rparr> \<rparr>
                           else ctx4))))"

definition processLeafPage :: "WalkContext \<Rightarrow> u32 \<Rightarrow> u8 list \<Rightarrow> WalkContext" where
  "processLeafPage ctx pgno page =
     (let headerOffset = (if pgno = 1 then 100 else 0);
          cellCount = read16 page (headerOffset + 3);
          ctx1 = ctx \<lparr> leafPagesScanned := leafPagesScanned ctx + 1 \<rparr>
      in fold (\<lambda>i c. processLeafCell c page (read16 page (headerOffset + 8 + i * 2)) headerOffset)
           [0..<unat cellCount] ctx1)"

section \<open>The b-tree walker of freelistfind.c and the overflow loop of pageowner.c\<close>

text \<open>\<open>markInUse\<close> and the overflow loop of freelistfind.c, which stops only at a page number
  outside \<open>1..mxPage\<close> or at a failed read.\<close>

definition markInUse :: "db \<Rightarrow> u32 \<Rightarrow> (u32 \<Rightarrow> bool) \<Rightarrow> (u32 \<Rightarrow> bool)" where
  "markInUse g pgno inUse = (if pgno \<ge> 1 \<and> pgno \<le> mxPage g then inUse(pgno := True) else inUse)"

fun freelistfind_walkOverflow :: "nat \<Rightarrow> db \<Rightarrow> u32 \<Rightarrow> (u32 \<Rightarrow> bool) \<Rightarrow> (u32 \<Rightarrow> bool) option" where
  "freelistfind_walkOverflow 0 g overflowPage inUse = None"
| "freelistfind_walkOverflow (Suc n) g overflowPage inUse =
     (if overflowPage > 0 \<and> overflowPage \<le> mxPage g then
        (let inUse1 = markInUse g overflowPage inUse
         in case readPage g overflowPage of
              None \<Rightarrow> Some inUse1
            | Some ovfl \<Rightarrow> freelistfind_walkOverflow n g (get32 ovfl 0) inUse1)
      else Some inUse)"

text \<open>The body of the leaf-cell loop of \<open>walkBtree\<close> in freelistfind.c: only table leaves are
  checked for overflow, and the local length is taken without the fallback to \<open>minLocal\<close>.
  \<open>n\<close> is the fuel of the overflow loop.\<close>

definition freelistfind_leafCell ::
  "nat \<Rightarrow> db \<Rightarrow> u8 list \<Rightarrow> u8 \<Rightarrow> nat \<Rightarrow> nat \<Rightarrow> (u32 \<Rightarrow> bool) \<Rightarrow> (u32 \<Rightarrow> bool) option" where
  "freelistfind_leafCell n g page pageType cellStart i inUse =
     (let cellOffset = read16 page (cellStart + i * 2)
      in if cellOffset < pagesize g - 4 then
           (let cell = unat cellOffset;
                (nPayload, k) = decodeVarint page cell;
                cell = cell + k;
                cell = (if pageType = 13 then cell + snd (decodeVarint page cell) else cell)
            in if nPayload <s 0 \<or> 1073741824 <s nPayload then Some inUse
               else
                 (let usable = pagesize g - reservedSpace g;
                      maxLocal = usable - 35
                  in if pageType = 13 then
                       (let minLocal = ((usable - 12) * 32 div 255) - 23
                        in if ucast maxLocal <s nPayload then
                             (let localSize =
                                    (ucast (ucast minLocal
                                       + i64_rem (nPayload - ucast minLocal)
                                           (ucast (usable - 4))) :: u32)
                              in if (of_nat cell + localSize + 4 :: u32) \<le> pagesize g then
                                   (let overflowPage = get32 page (cell + unat localSize)
                                    in if overflowPage > 0 \<and> overflowPage \<le> mxPage g
                                       then freelistfind_walkOverflow n g overflowPage inUse
                                       else Some inUse)
                                 else Some inUse)
                           else Some inUse)
                     else Some inUse))
         else Some inUse)"

text \<open>\<open>walkBtree\<close> of freelistfind.c. The recursion is bounded by \<open>depth\<close>; the result is \<open>None\<close>
  when an overflow loop inside does not end.\<close>

function freelistfind_walkBtree ::
  "nat \<Rightarrow> db \<Rightarrow> u32 \<Rightarrow> int \<Rightarrow> (u32 \<Rightarrow> bool) \<Rightarrow> (u32 \<Rightarrow> bool) option" where
  "freelistfind_walkBtree n g pgno depth inUse =
     (if pgno < 1 \<or> pgno > mxPage g then Some inUse
      else if inUse pgno then Some inUse
      else if depth > 50 then Some inUse
      else
        (let inUse1 = markInUse g pgno inUse
         in case readPage g pgno of
              None \<Rightarrow> Some inUse1
            | Some page \<Rightarrow>
                (let hdr = (if pgno = 1 then 100 else 0);
                     pageType = page ! hdr
                 in if pageType \<noteq> 2 \<and> pageType \<noteq> 5 \<and> pageType \<noteq> 10 \<and> pageType \<noteq> 13
                    then Some inUse1
                    else
                      (let nCell = read16 page (hdr + 3);
                           cells = [0..<min (unat nCell) (unat (pagesize g div 2))];
                           r1 = (if pageType = 2 \<or> pageType = 5 then
                                   (case fold (\<lambda>i r.
                                           case r of
                                             None \<Rightarrow> None
                                           | Some s \<Rightarrow>
                                               (let cellOffset = read16 page (hdr + 12 + i * 2)
                                                in if cellOffset \<ge> 4 \<and> cellOffset < pagesize g
                                                   then freelistfind_walkBtree n g
                                                          (get32 page (unat cellOffset))
                                                          (depth + 1) s
                                                   else Some s))
                                         cells (Some inUse1) of
                                      None \<Rightarrow> None
                                    | Some s \<Rightarrow>
                                        freelistfind_walkBtree n g (get32 page (hdr + 8))
                                          (depth + 1) s)
                                 else Some inUse1)
                       in if pageType = 13 \<or> pageType = 10 then
                            (case r1 of
                               None \<Rightarrow> None
                             | Some s1 \<Rightarrow>
                                 fold (\<lambda>i r.
                                         case r of
                                           None \<Rightarrow> None
                                         | Some s \<Rightarrow>
                                             freelistfind_leafCell n g page pageType (hdr + 8) i s)
                                   cells (Some s1))
                          else r1))))"
  by pat_completeness auto
termination
  by (relation "measure (\<lambda>(n, g, pgno, depth, inUse). nat (51 - depth))") auto

declare freelistfind_walkBtree.simps [simp del]

text \<open>The overflow loop of pageowner.c, with its context.\<close>

record OwnerContext =
  po_pageSize :: u32
  po_reservedSpace :: u32
  po_totalPages :: u32
  po_db :: "u8 list"
  pageOwner :: "u32 \<Rightarrow> bool"

definition markPageOwned :: "OwnerContext \<Rightarrow> u32 \<Rightarrow> OwnerContext" where
  "markPageOwned ctx pgno =
     (if pgno > 0 \<and> pgno \<le> po_totalPages ctx
      then ctx \<lparr> pageOwner := (pageOwner ctx)(pgno := True) \<rparr> else ctx)"

definition pageowner_readPage :: "OwnerContext \<Rightarrow> u32 \<Rightarrow> u8 list option" where
  "pageowner_readPage ctx pgno =
     (if pgno = 0 \<or> pgno > po_totalPages ctx then None
      else readBytes (po_db ctx) (unat (pgno - 1) * unat (po_pageSize ctx))
             (unat (po_pageSize ctx)))"

fun pageowner_walkOverflow :: "nat \<Rightarrow> OwnerContext \<Rightarrow> u32 \<Rightarrow> OwnerContext option" where
  "pageowner_walkOverflow 0 ctx overflowPgno = None"
| "pageowner_walkOverflow (Suc n) ctx overflowPgno =
     (if overflowPgno \<noteq> 0 then
        (let ctx1 = markPageOwned ctx overflowPgno
         in case pageowner_readPage ctx1 overflowPgno of
              None \<Rightarrow> Some ctx1
            | Some overflowPage \<Rightarrow> pageowner_walkOverflow n ctx1 (read32 overflowPage 0))
      else Some ctx)"


section \<open>Concrete inputs\<close>

text \<open>\<open>zeros n\<close> is a run of \<open>n\<close> zero bytes, and \<open>db_of f\<close> the database that \<open>readHeader\<close> of
  pageacct.c makes of the file \<open>f\<close>.\<close>

definition zeros :: "nat \<Rightarrow> u8 list" where
  "zeros n = replicate n 0"

definition db_of :: "u8 list \<Rightarrow> db" where
  "db_of f = the (readHeader f)"




text \<open>Two 512-byte pages: page 1 is an empty table leaf, page 2 is the only freelist trunk and
  lists one leaf, page 99, which is beyond the end of the file.\<close>

definition bad_leaf_file :: "u8 list" where
  "bad_leaf_file =
     (magic @ [2, 0] @ zeros 10 @ [0, 0, 0, 2] @ [0, 0, 0, 2] @ [0, 0, 0, 2] @ zeros 60
        @ [13, 0, 0, 0, 0, 2, 0, 0] @ zeros 404)
     @ ([0, 0, 0, 0, 0, 0, 0, 1, 0, 0, 0, 99] @ zeros 500)"

text \<open>Three 512-byte pages: page 2 is a freelist trunk with next trunk 3 and a stored leaf count
  of 200 (the maximum is \<open>(512 - 8) / 4 = 126\<close>), page 3 is a trunk with no leaves.\<close>

definition clamp_file :: "u8 list" where
  "clamp_file =
     (magic @ [2, 0] @ zeros 10 @ [0, 0, 0, 3] @ [0, 0, 0, 2] @ [0, 0, 0, 2] @ zeros 60
        @ [13, 0, 0, 0, 0, 2, 0, 0] @ zeros 404)
     @ ([0, 0, 0, 3, 0, 0, 0, 200] @ zeros 504)
     @ zeros 512"


text \<open>The contexts that \<open>main\<close> of dumprow.c, tablewalk.c and pageowner.c build from the header of
  the file \<open>f\<close>: the page count is the header field at offset 28. \<open>buf\<close> is the content of the
  freshly allocated page buffer.\<close>

definition dumprow_ctx :: "u8 list \<Rightarrow> u64 \<Rightarrow> u8 list \<Rightarrow> DbContext" where
  "dumprow_ctx f rowid buf =
     \<lparr> pageSize = readPageSize f, ctx_reservedSpace = ucast (f ! 20), totalPages = read32 f 28,
       ctx_db = f, pageBuf = buf, targetRowid = rowid, found = False, dumped = None \<rparr>"

definition tablewalk_ctx :: "u8 list \<Rightarrow> u64 \<Rightarrow> WalkContext" where
  "tablewalk_ctx f rowid =
     \<lparr> tw_pageSize = readPageSize f, tw_reservedSpace = ucast (f ! 20), findRowid = rowid,
       foundTarget = False, leafPagesScanned = 0, cellsScanned = 0, corruptCells = 0,
       minRowid = 0, maxRowid = 0, tw_dumped = None \<rparr>"

definition pageowner_ctx :: "u8 list \<Rightarrow> (u32 \<Rightarrow> bool) \<Rightarrow> OwnerContext" where
  "pageowner_ctx f owner =
     \<lparr> po_pageSize = readPageSize f, po_reservedSpace = ucast (f ! 20),
       po_totalPages = read32 f 28, po_db = f, pageOwner = owner \<rparr>"

text \<open>The first page of a database of \<open>npages\<close> 512-byte pages with an empty freelist, page 1
  being an empty table leaf.\<close>

definition first_page :: "u8 \<Rightarrow> u8 list" where
  "first_page npages =
     magic @ [2, 0] @ zeros 10 @ [0, 0, 0, npages] @ zeros 68
       @ [13, 0, 0, 0, 0, 2, 0, 0] @ zeros 404"

text \<open>A table leaf page with one cell: the cell-pointer array at offset 8 holds the offset 508,
  where the cell is: payload size 2, rowid 1, and the record \<open>02 09\<close> (one column, the integer 1).\<close>

definition one_row_leaf :: "u8 list" where
  "one_row_leaf = [13, 0, 0, 0, 1, 1, 0xFC, 0] @ [1, 0xFC] @ zeros 498 @ [2, 1, 2, 9]"

definition one_row_file :: "u8 list" where
  "one_row_file = first_page 2 @ one_row_leaf"

text \<open>Page 2 is an interior table page with no cells whose rightmost child is page 2 itself.\<close>

definition self_child_page :: "u8 list" where
  "self_child_page = [5, 0, 0, 0, 0, 2, 0, 0, 0, 0, 0, 2] @ zeros 500"

definition self_child_file :: "u8 list" where
  "self_child_file = first_page 2 @ self_child_page"

text \<open>Page 2 is a table leaf with one cell of payload size 600 (local length 92) whose first
  overflow page is 3; the next pointer of page 3 is 3.\<close>

definition overflow_cell_leaf :: "u8 list" where
  "overflow_cell_leaf =
     [13, 0, 0, 0, 1, 1, 0x9D, 0] @ [1, 0x9D] @ zeros 403
       @ [0x84, 0x58, 1] @ zeros 92 @ [0, 0, 0, 3]"

definition self_next_page :: "u8 list" where
  "self_next_page = [0, 0, 0, 3] @ zeros 508"

definition overflow_cycle_file :: "u8 list" where
  "overflow_cycle_file = first_page 3 @ overflow_cell_leaf @ self_next_page"


text \<open>A 4096-byte table leaf with one cell at offset 3600: payload size 4062 (\<open>9F 5E\<close>),
  rowid 1, 489 bytes of local payload and the first overflow page number 3; and the context
  of tablewalk.c for a database of 4096-byte pages searched for rowid 1.\<close>

definition big_cell_leaf :: "u8 list" where
  "big_cell_leaf =
     [13, 0, 0, 0, 1, 0x0E, 0x10, 0] @ [0x0E, 0x10] @ zeros 3590
       @ [0x9F, 0x5E, 1] @ zeros 489 @ [0, 0, 0, 3]"

definition big_cell_ctx :: WalkContext where
  "big_cell_ctx =
     \<lparr> tw_pageSize = 4096, tw_reservedSpace = 0, findRowid = 1, foundTarget = False,
       leafPagesScanned = 0, cellsScanned = 0, corruptCells = 0, minRowid = 0, maxRowid = 0,
       tw_dumped = None \<rparr>"

text \<open>\<open>keeps T st st'\<close>: from \<open>st\<close> to \<open>st'\<close> no diagnostic was printed, and every page either has
  the type and parent it had, or was unclassified and now has a type in \<open>T\<close>.\<close>

definition keeps :: "PageType set \<Rightarrow> acct \<Rightarrow> acct \<Rightarrow> bool" where
  "keeps T st st' \<longleftrightarrow>
     diags st' = diags st
     \<and> (\<forall>p. (pageTypes st' p = pageTypes st p \<and> pageParents st' p = pageParents st p)
            \<or> (pageTypes st p = PAGE_UNKNOWN \<and> pageTypes st' p \<in> T))"

definition btree_roles :: "PageType set" where
  "btree_roles = {PAGE_BTREE_INTERIOR_INDEX, PAGE_BTREE_INTERIOR_TABLE, PAGE_BTREE_LEAF_INDEX,
                  PAGE_BTREE_LEAF_TABLE, PAGE_OVERFLOW}"

definition orphan_roles :: "PageType set" where
  "orphan_roles = {PAGE_ORPHAN_BTREE_INTERIOR_INDEX, PAGE_ORPHAN_BTREE_INTERIOR_TABLE,
                   PAGE_ORPHAN_BTREE_LEAF_INDEX, PAGE_ORPHAN_BTREE_LEAF_TABLE,
                   PAGE_ORPHAN_OVERFLOW, PAGE_ORPHAN_EMPTY}"

definition later_roles :: "PageType set" where
  "later_roles = insert PAGE_PTRMAP (btree_roles \<union> orphan_roles)"

text \<open>Three 512-byte pages. The freelist has one trunk, page 2, which lists page 3 as a leaf.
  Page 1 is an interior table page with no cells whose rightmost child is page 3, and page 3
  has the content of an empty table leaf: page 3 is reached by the freelist walk and by the
  b-tree walk.\<close>

definition shared_page_file :: "u8 list" where
  "shared_page_file =
     (magic @ [2, 0] @ zeros 10 @ [0, 0, 0, 3] @ [0, 0, 0, 2] @ [0, 0, 0, 2] @ zeros 60
        @ [5, 0, 0, 0, 0, 0, 0, 0, 0, 0, 0, 3] @ zeros 400)
     @ ([0, 0, 0, 0, 0, 0, 0, 1, 0, 0, 0, 3] @ zeros 500)
     @ ([13, 0, 0, 0, 0, 2, 0, 0] @ zeros 504)"


text \<open>The freelist walk as the amended Claim C4 words it, for comparison with the three
  walkers: only the chain of trunk pointers decides whether and how the walk ends, and the
  leaf entries of each trunk (\<open>trunk_leaves\<close>, the stored count clamped as in the source) are
  collected without any check. \<open>spec_trunk_chain\<close> returns the trunks in order, each with its
  leaf entries; \<open>spec_entries\<close> is the list that \<open>addFreelistPage\<close> of freelistck.c is then
  expected to hold.\<close>

definition trunk_leaves :: "db \<Rightarrow> u8 list \<Rightarrow> u32 list" where
  "trunk_leaves g page =
     (let numLeaves = get32 page 4;
          maxLeaves = (pagesize g - 8) div 4;
          numLeaves = (if numLeaves > maxLeaves then maxLeaves else numLeaves)
      in map (\<lambda>i. get32 page (8 + i * 4)) [0..<unat numLeaves])"

fun spec_trunk_chain ::
  "nat \<Rightarrow> db \<Rightarrow> u32 \<Rightarrow> u32 list \<Rightarrow> (walk_error + (u32 \<times> u32 list) list) option" where
  "spec_trunk_chain 0 g pgno visited = None"
| "spec_trunk_chain (Suc n) g pgno visited =
     (if pgno = 0 then Some (Inr [])
      else if pgno \<in> set visited then Some (Inl (FreelistCycle pgno))
      else
        (case readPage g pgno of
           None \<Rightarrow> Some (Inl (ReadFailed pgno))
         | Some page \<Rightarrow>
             (case spec_trunk_chain n g (get32 page 0)
                     (if length visited < 10000 then visited @ [pgno] else visited) of
                None \<Rightarrow> None
              | Some (Inl e) \<Rightarrow> Some (Inl e)
              | Some (Inr ts) \<Rightarrow> Some (Inr ((pgno, trunk_leaves g page) # ts)))))"

definition spec_entries :: "(u32 \<times> u32 list) list \<Rightarrow> (u32 \<times> bool \<times> u32) list" where
  "spec_entries ts = concat (map (\<lambda>(t, ls). (t, True, 0) # map (\<lambda>l. (l, False, t)) ls) ts)"

text \<open>\<open>out_of_range_untouched g st st'\<close>: from \<open>st\<close> to \<open>st'\<close> no page outside \<open>1..mxPage\<close> has
  changed its type or parent, and every diagnostic added is a conflict about a page inside
  \<open>1..mxPage\<close>.\<close>

definition out_of_range_untouched :: "db \<Rightarrow> acct \<Rightarrow> acct \<Rightarrow> bool" where
  "out_of_range_untouched g st st' \<longleftrightarrow>
     (\<forall>p. p < 1 \<or> p > mxPage g \<longrightarrow>
            pageTypes st' p = pageTypes st p \<and> pageParents st' p = pageParents st p)
     \<and> (\<forall>d \<in> set (diags st'). d \<in> set (diags st)
            \<or> (case d of Conflict p a b c e \<Rightarrow> 1 \<le> p \<and> p \<le> mxPage g
                | InvalidLeafCount t c m \<Rightarrow> False))"



section \<open>Results: header decoding\<close>

lemma pageacct_pagesize_cases:
  "pageacct_pagesize header =
     (if read16 header 16 = 1 then 65536
      else if read16 header 16 = 0 then 1024 else read16 header 16)"
  by (simp add: pageacct_pagesize_def read16_def Let_def)

lemma readPageSize_cases:
  "readPageSize header = (if read16 header 16 = 1 then 65536 else read16 header 16)"
  by (simp add: readPageSize_def Let_def)

text \<open>
  Claim C5. A stored page-size field of 1 yields 65536, a stored 0 yields 1024, any other value
  is taken unchanged. pageacct.c does this (\<open>pageacct_pagesize_cases\<close>); \<open>readPageSize\<close> has no
  case for 0 (\<open>readPageSize_cases\<close>). On a header whose
  field is \<open>00 00\<close>, \<open>readPageSize\<close> of dumprow.c returns 0 and the earlier \<open>readHeader\<close> of
  freelistck.c returns 65536, where pageacct.c returns 1024.
\<close>

theorem pagesize_zero_field_diverges:
  "readPageSize (header_with_pagesize 0 0) = 0
   \<and> freelistck_old_pagesize (header_with_pagesize 0 0) = 65536
   \<and> pageacct_pagesize (header_with_pagesize 0 0) = 1024"
  by (simp add: readPageSize_def freelistck_old_pagesize_def pageacct_pagesize_def
      read16_def header_with_pagesize_def magic_def)


section \<open>Results: local payload length\<close>

text \<open>The computation of pageacct.c read as integers: for a usable size between 196 and 65536,
  a payload size that the walker accepts (positive, below \<open>2^30\<close>) and exceeds \<open>maxLocal\<close>, and
  \<open>minLocal \<le> maxLocal\<close>, no intermediate value wraps around.\<close>

lemma uint_ucast_u32_u64: "uint (ucast (w :: u32) :: u64) = uint w"
  by (rule uint_up_ucast) (simp add: is_up)

lemma sint_small_u64: "uint (w :: u64) < 2 ^ 63 \<Longrightarrow> sint w = uint w"
proof -
  assume a: "uint w < 2 ^ 63"
  have "- (2 ^ 63) \<le> uint w"
    by (rule order_trans [of _ 0]) simp_all
  with a have "signed_take_bit 63 (uint w) = uint w"
    by (intro signed_take_bit_int_eq_self) simp_all
  then show ?thesis
    by (simp add: sint_uint)
qed

lemma uint_of_nonneg_sint_u64: "0 \<le> sint (w :: u64) \<Longrightarrow> uint w = sint w"
proof -
  assume a: "0 \<le> sint w"
  have "sint w < 2 ^ 64"
    using sint_lt [of w] by simp
  with a have "take_bit 64 (sint w) = sint w"
    by (intro take_bit_int_eq_self) simp_all
  then show ?thesis
    by (simp add: uint_sint)
qed

lemma smod_nonneg: "0 \<le> k \<Longrightarrow> 0 < l \<Longrightarrow> k smod l = k mod (l :: int)"
  by (cases "k = 0") (simp_all add: signed_modulo_int_def)


lemma minLocal_of_uint:
  assumes "196 \<le> usable" "usable \<le> 65536"
  shows "uint (minLocal_of usable) = (uint usable - 12) * 32 div 255 - 23"
proof -
  have u: "196 \<le> uint usable" "uint usable \<le> 65536"
    using assms by (simp_all add: word_le_def)
  have "uint (12 :: u32) \<le> uint usable"
    using u by simp
  then have "uint (usable - 12) = uint usable - uint (12 :: u32)"
    by (rule uint_sub_lem [THEN iffD1])
  then have a: "uint (usable - 12) = uint usable - 12"
    by simp
  have "uint (usable - 12) * uint (32 :: u32) < 2 ^ LENGTH(32)"
    using u by (simp add: a)
  then have "uint ((usable - 12) * 32) = uint (usable - 12) * uint (32 :: u32)"
    by (rule uint_mult_lem [THEN iffD1])
  then have b: "uint ((usable - 12) * 32) = (uint usable - 12) * 32"
    by (simp only: a) simp
  have "uint ((usable - 12) * 32 div 255) = uint ((usable - 12) * 32) div uint (255 :: u32)"
    by (rule uint_div)
  moreover have "uint (255 :: u32) = 255"
    by simp
  ultimately have c: "uint ((usable - 12) * 32 div 255) = (uint usable - 12) * 32 div 255"
    by (simp only: b)
  have "23 * 255 \<le> (uint usable - 12) * 32"
    using u by simp
  then have "23 \<le> (uint usable - 12) * 32 div 255"
    by (simp only: zdiv_mono1 [of "23 * 255" _ 255, simplified])
  moreover have n23: "uint (23 :: u32) = 23"
    by simp
  ultimately have "uint (23 :: u32) \<le> uint ((usable - 12) * 32 div 255)"
    by (simp only: c)
  then have "uint ((usable - 12) * 32 div 255 - 23)
               = uint ((usable - 12) * 32 div 255) - uint (23 :: u32)"
    by (rule uint_sub_lem [THEN iffD1])
  then show ?thesis
    by (simp only: minLocal_of_def c n23)
qed


lemma pageacct_localSize_uint:
  assumes geom: "196 \<le> usable" "usable \<le> 65536"
    and pos: "0 <s nPayload" "nPayload <s 1073741824"
    and ovf: "ucast maxLocal <s nPayload"
    and le: "minLocal_of usable \<le> maxLocal"
  shows "uint (pageacct_localSize usable maxLocal (minLocal_of usable) nPayload) =
           (let m = uint (minLocal_of usable);
                s = m + (uint nPayload - m) mod (uint usable - 4)
            in if s \<le> uint maxLocal then s else m)"
proof -
  let ?m = "minLocal_of usable"
  let ?r = "(uint nPayload - uint ?m) mod (uint usable - 4)"
  have u: "196 \<le> uint usable" "uint usable \<le> 65536"
    using geom by (simp_all add: word_le_def)
  have m: "uint ?m = (uint usable - 12) * 32 div 255 - 23"
    using geom by (rule minLocal_of_uint)
  have "(uint usable - 12) * 32 div 255 \<le> (65536 - 12) * 32 div 255"
    using u by (intro zdiv_mono1) simp_all
  then have mb: "uint ?m < 8200"
    unfolding m by simp
  have m0: "0 \<le> uint ?m"
    by simp
  have p63: "(2 :: int) ^ 63 = 9223372036854775808"
    by simp
  have sp: "0 < sint nPayload" "sint nPayload < 1073741824"
    using pos by (simp_all add: word_sless_alt)
  have P: "uint nPayload = sint nPayload"
    using sp by (intro uint_of_nonneg_sint_u64) simp
  have Pb: "uint nPayload < 1073741824"
    using P sp by simp
  have "uint (ucast maxLocal :: u64) < 2 ^ 63"
    using uint_lt2p [of maxLocal] by (simp add: uint_ucast_u32_u64)
  then have "sint (ucast maxLocal :: u64) = uint maxLocal"
    by (simp add: sint_small_u64 uint_ucast_u32_u64)
  with ovf P have MP: "uint maxLocal < uint nPayload"
    by (simp add: word_sless_alt)
  have mM: "uint ?m \<le> uint maxLocal"
    using le by (simp add: word_le_def)
  have "uint (ucast ?m :: u64) \<le> uint nPayload"
    using mM MP by (simp add: uint_ucast_u32_u64)
  then have "uint (nPayload - ucast ?m) = uint nPayload - uint (ucast ?m :: u64)"
    by (rule uint_sub_lem [THEN iffD1])
  then have x: "uint (nPayload - ucast ?m) = uint nPayload - uint ?m"
    by (simp only: uint_ucast_u32_u64)
  have x0: "0 \<le> uint nPayload - uint ?m"
    using mM MP by simp
  have "uint nPayload - uint ?m < 2 ^ 63"
    using Pb m0 p63 by linarith
  then have "uint (nPayload - ucast ?m) < 2 ^ 63"
    by (simp only: x)
  then have sx: "sint (nPayload - ucast ?m) = uint nPayload - uint ?m"
    by (simp only: sint_small_u64 x)
  have "uint (4 :: u32) \<le> uint usable"
    using u by simp
  then have "uint (usable - 4) = uint usable - uint (4 :: u32)"
    by (rule uint_sub_lem [THEN iffD1])
  then have d: "uint (ucast (usable - 4) :: u64) = uint usable - 4"
    by (simp add: uint_ucast_u32_u64)
  have "uint usable - 4 < 2 ^ 63"
    using u p63 by linarith
  then have "uint (ucast (usable - 4) :: u64) < 2 ^ 63"
    by (simp only: d)
  then have sd: "sint (ucast (usable - 4) :: u64) = uint usable - 4"
    by (simp only: sint_small_u64 d)
  have dpos: "0 < uint usable - 4"
    using u by simp
  have r0: "0 \<le> ?r"
    using dpos by (rule pos_mod_sign)
  have "?r < uint usable - 4"
    using dpos by (rule pos_mod_bound)
  then have rb: "?r < 65536"
    using u by linarith
  have "(uint nPayload - uint ?m) smod (uint usable - 4) = ?r"
    using x0 dpos by (rule smod_nonneg)
  then have rem: "i64_rem (nPayload - ucast ?m) (ucast (usable - 4)) = word_of_int ?r"
    by (simp only: i64_rem_def sx sd)
  have "?r < 2 ^ 64"
    using rb by simp
  with r0 have "take_bit 64 ?r = ?r"
    by (rule take_bit_int_eq_self)
  then have ur: "uint (word_of_int ?r :: u64) = ?r"
    by (simp only: uint_word_of_int_eq len_bit0 len_num1) simp
  have "uint ?m + ?r < 18446744073709551616"
    using mb rb by linarith
  then have "uint ?m + ?r < 2 ^ LENGTH(64)"
    by simp
  then have "uint (ucast ?m :: u64) + uint (word_of_int ?r :: u64) < 2 ^ LENGTH(64)"
    by (simp only: uint_ucast_u32_u64 ur)
  then have "uint (ucast ?m + word_of_int ?r :: u64)
               = uint (ucast ?m :: u64) + uint (word_of_int ?r :: u64)"
    by (rule uint_add_lem [THEN iffD1])
  then have sum: "uint (ucast ?m + word_of_int ?r :: u64) = uint ?m + ?r"
    by (simp only: uint_ucast_u32_u64 ur)
  have "0 \<le> uint ?m + ?r"
    using m0 r0 by linarith
  moreover have "uint ?m + ?r < 4294967296"
    using mb rb by linarith
  then have "uint ?m + ?r < 2 ^ 32"
    by simp
  ultimately have "take_bit 32 (uint ?m + ?r) = uint ?m + ?r"
    by (rule take_bit_int_eq_self)
  then have surplus: "uint (ucast (ucast ?m + word_of_int ?r :: u64) :: u32) = uint ?m + ?r"
    by (simp only: unsigned_ucast_eq sum len_bit0 len_num1) simp
  show ?thesis
    by (simp only: pageacct_localSize_def rem Let_def word_le_def surplus if_distrib [of uint])
qed

text \<open>
  Claim C1. When the payload exceeds \<open>maxLocal\<close>, the local length is
  \<open>minLocal + (payload - minLocal) mod (U - 4)\<close>, replaced by \<open>minLocal\<close> when that value
  exceeds \<open>maxLocal\<close>, and the first overflow page number follows the local payload. With
  page size 4096, no reserved bytes and a payload of 4062 bytes (\<open>maxLocal = 4061\<close>,
  \<open>minLocal = 489\<close>) the formula gives 4062, which exceeds \<open>maxLocal\<close>: pageacct.c falls back
  to 489 (and computes the claimed value in general: \<open>pageacct_localSize_uint\<close>), while
  dumprow.c and tablewalk.c keep 4062, which equals the payload size. On
  \<open>big_cell_leaf\<close>, whose cell has 489 local bytes followed by overflow page 3, tablewalk.c
  reports a local length of 4062, no overflow page, and a corrupt cell.
\<close>

theorem local_payload_fallback_missing:
  "maxLocal_table 4096 = 4061 \<and> minLocal_of 4096 = 489
   \<and> pageacct_localSize 4096 (maxLocal_table 4096) (minLocal_of 4096) 4062 = 489
   \<and> searchLeaf_local 4096 0 4062 = 4062
   \<and> processLeafCell_local 4096 4062 = 4062
   \<and> readVarint big_cell_leaf 3600 = (4062, 2)
   \<and> read32 big_cell_leaf (3603 + 489) = 3
   \<and> tw_dumped (processLeafPage big_cell_ctx 2 big_cell_leaf)
       = Some \<lparr> hit_cellOffset = 3600, hit_payloadSize = 4062, hit_local = 4062,
                hit_overflow = None \<rparr>
   \<and> corruptCells (processLeafPage big_cell_ctx 2 big_cell_leaf) = 1"
  by code_simp


section \<open>Results: pointer-map validation\<close>



lemma markPage_types:
  "pageTypes (markPage g pgno t parent st) =
     (if pgno < 1 \<or> pgno > mxPage g then pageTypes st else (pageTypes st)(pgno := t))"
  by (simp add: markPage_def Let_def)










section \<open>Results: freelist walk\<close>

lemma readPage_out_of_range: "pgno > mxPage g \<Longrightarrow> readPage g pgno = None"
  by (simp add: readPage_def)

lemma out_of_range_untouched_refl: "out_of_range_untouched g st st"
  by (simp add: out_of_range_untouched_def)

lemma out_of_range_untouched_trans: "out_of_range_untouched g a b \<Longrightarrow> out_of_range_untouched g b c \<Longrightarrow> out_of_range_untouched g a c"
  unfolding out_of_range_untouched_def by (metis (no_types, lifting))

lemma out_of_range_untouched_markPage: "out_of_range_untouched g st (markPage g q t par st)"
  by (auto simp: out_of_range_untouched_def markPage_def Let_def not_less not_le)

lemma out_of_range_untouched_fold:
  "out_of_range_untouched g st (fold (\<lambda>i s. markPage g (f i) t par s) xs st)"
proof (induction xs arbitrary: st)
  case Nil
  show ?case by (simp add: out_of_range_untouched_refl)
next
  case (Cons x xs)
  have "out_of_range_untouched g st (markPage g (f x) t par st)"
    by (rule out_of_range_untouched_markPage)
  moreover have "out_of_range_untouched g (markPage g (f x) t par st)
                   (fold (\<lambda>i s. markPage g (f i) t par s) xs (markPage g (f x) t par st))"
    by (rule Cons.IH)
  ultimately show ?case
    by (simp add: out_of_range_untouched_trans)
qed

lemma walkFreelist_loop_chain:
  "case spec_trunk_chain n g pgno visited of
     None \<Rightarrow> walkFreelist_loop n g pgno visited st = None
   | Some (Inl e) \<Rightarrow> walkFreelist_loop n g pgno visited st = Some (Inl e)
   | Some (Inr ts) \<Rightarrow>
       (\<exists>st'. walkFreelist_loop n g pgno visited st = Some (Inr st') \<and> out_of_range_untouched g st st')"
proof (induction n arbitrary: pgno visited st)
  case 0
  show ?case by simp
next
  case (Suc n)
  show ?case
  proof (cases "pgno = 0 \<or> pgno \<in> set visited \<or> readPage g pgno = None")
    case True
    then show ?thesis by (auto simp: out_of_range_untouched_refl)
  next
    case False
    then obtain page where rd: "readPage g pgno = Some page"
      and nz: "pgno \<noteq> 0" and nv: "pgno \<notin> set visited"
      by auto
    let ?v = "if length visited < 10000 then visited @ [pgno] else visited"
    let ?st1 = "markPage g pgno PAGE_FREELIST_TRUNK 0 st"
    let ?maxLeaves = "(pagesize g - 8) div 4"
    let ?numLeaves = "if get32 page 4 > ?maxLeaves then ?maxLeaves else get32 page 4"
    let ?st2 = "fold (\<lambda>i s. markPage g (get32 page (8 + i * 4)) PAGE_FREELIST_LEAF pgno s)
                  [0..<unat ?numLeaves] ?st1"
    have step: "walkFreelist_loop (Suc n) g pgno visited st
                  = walkFreelist_loop n g (get32 page 0) ?v ?st2"
      using rd nz nv by (simp add: Let_def)
    have u: "out_of_range_untouched g st ?st2"
      using out_of_range_untouched_markPage [of g st pgno PAGE_FREELIST_TRUNK 0] out_of_range_untouched_fold
      by (rule out_of_range_untouched_trans)
    from Suc.IH [of "get32 page 0" ?v ?st2] u show ?thesis
      unfolding step using rd nz nv
      by (auto split: option.splits sum.splits intro: out_of_range_untouched_trans)
  qed
qed

lemma fold_addFreelistPage_leaves:
  "freelist (fold (\<lambda>i s. addFreelistPage (f i) False t s) xs ck)
     = freelist ck @ map (\<lambda>i. (f i, False, t)) xs
   \<and> leafCount (fold (\<lambda>i s. addFreelistPage (f i) False t s) xs ck)
     = leafCount ck + of_nat (length xs)"
  by (induction xs arbitrary: ck) (simp_all add: addFreelistPage_def Let_def)

lemma spec_entries_Cons:
  "spec_entries ((t, ls) # ts) = (t, True, 0) # map (\<lambda>l. (l, False, t)) ls @ spec_entries ts"
  by (simp add: spec_entries_def)

lemma freelistck_walk_loop_chain:
  "case spec_trunk_chain n g pgno visited of
     None \<Rightarrow> freelistck_walk_loop n g pgno visited ck = None
   | Some (Inl e) \<Rightarrow> freelistck_walk_loop n g pgno visited ck = Some (Inl e)
   | Some (Inr ts) \<Rightarrow>
       (\<exists>ck'. freelistck_walk_loop n g pgno visited ck = Some (Inr ck')
           \<and> freelist ck' = freelist ck @ spec_entries ts
           \<and> leafCount ck' = leafCount ck + of_nat (length (concat (map snd ts))))"
proof (induction n arbitrary: pgno visited ck)
  case 0
  show ?case by simp
next
  case (Suc n)
  show ?case
  proof (cases "pgno = 0 \<or> pgno \<in> set visited \<or> readPage g pgno = None")
    case True
    then show ?thesis by (auto simp: spec_entries_def)
  next
    case False
    then obtain page where rd: "readPage g pgno = Some page"
      and nz: "pgno \<noteq> 0" and nv: "pgno \<notin> set visited"
      by auto
    let ?v = "if length visited < 10000 then visited @ [pgno] else visited"
    let ?st1 = "addFreelistPage pgno True 0 ck"
    let ?maxLeaves = "(pagesize g - 8) div 4"
    let ?st2 = "if get32 page 4 > ?maxLeaves
                then ?st1 \<lparr> ck_diags := ck_diags ?st1 @
                              [InvalidLeafCount pgno (get32 page 4) ?maxLeaves] \<rparr>
                else ?st1"
    let ?numLeaves = "if get32 page 4 > ?maxLeaves then ?maxLeaves else get32 page 4"
    let ?st3 = "fold (\<lambda>i s. addFreelistPage (get32 page (8 + i * 4)) False pgno s)
                  [0..<unat ?numLeaves] ?st2"
    have step: "freelistck_walk_loop (Suc n) g pgno visited ck
                  = freelistck_walk_loop n g (get32 page 0) ?v ?st3"
      using rd nz nv by (simp add: Let_def)
    have tl: "trunk_leaves g page = map (\<lambda>i. get32 page (8 + i * 4)) [0..<unat ?numLeaves]"
      by (simp add: trunk_leaves_def Let_def)
    have f2: "freelist ?st2 = freelist ck @ [(pgno, True, 0)]" "leafCount ?st2 = leafCount ck"
      by (simp_all add: addFreelistPage_def Let_def)
    have f3: "freelist ?st3 = freelist ck @ (pgno, True, 0) # map (\<lambda>l. (l, False, pgno)) (trunk_leaves g page)"
      "leafCount ?st3 = leafCount ck + of_nat (length (trunk_leaves g page))"
      using fold_addFreelistPage_leaves [of "\<lambda>i. get32 page (8 + i * 4)" pgno "[0..<unat ?numLeaves]" ?st2]
      unfolding tl f2 by (simp_all add: comp_def)
    from Suc.IH [of "get32 page 0" ?v ?st3] show ?thesis
      unfolding step using rd nz nv f3
      by (auto split: option.splits sum.splits simp: spec_entries_Cons)
  qed
qed

lemma fold_markFreelist_leaves:
  "(\<forall>p. p < 1 \<or> p > mxPage g \<longrightarrow>
      inFreelist (fold (\<lambda>i s. (let s1 = markFreelist g (f i) s
                                in s1 \<lparr> ff_leafCount := ff_leafCount s1 + 1 \<rparr>)) xs ff) p
        = inFreelist ff p)
   \<and> ff_leafCount (fold (\<lambda>i s. (let s1 = markFreelist g (f i) s
                                in s1 \<lparr> ff_leafCount := ff_leafCount s1 + 1 \<rparr>)) xs ff)
     = ff_leafCount ff + of_nat (length xs)"
  by (induction xs arbitrary: ff) (auto simp: markFreelist_def Let_def not_less not_le)

lemma freelistfind_walk_loop_chain:
  "case spec_trunk_chain n g pgno visited of
     None \<Rightarrow> freelistfind_walk_loop n g pgno visited ff = None
   | Some (Inl e) \<Rightarrow> freelistfind_walk_loop n g pgno visited ff = Some (Inl e)
   | Some (Inr ts) \<Rightarrow>
       (\<exists>ff'. freelistfind_walk_loop n g pgno visited ff = Some (Inr ff')
           \<and> (\<forall>p. p < 1 \<or> p > mxPage g \<longrightarrow> inFreelist ff' p = inFreelist ff p)
           \<and> ff_leafCount ff' = ff_leafCount ff + of_nat (length (concat (map snd ts))))"
proof (induction n arbitrary: pgno visited ff)
  case 0
  show ?case by simp
next
  case (Suc n)
  show ?case
  proof (cases "pgno = 0 \<or> pgno \<in> set visited \<or> readPage g pgno = None")
    case True
    then show ?thesis by auto
  next
    case False
    then obtain page where rd: "readPage g pgno = Some page"
      and nz: "pgno \<noteq> 0" and nv: "pgno \<notin> set visited"
      by auto
    let ?v = "if length visited < 10000 then visited @ [pgno] else visited"
    let ?st1 = "markFreelist g pgno (ff \<lparr> ff_trunkCount := ff_trunkCount ff + 1 \<rparr>)"
    let ?maxLeaves = "(pagesize g - 8) div 4"
    let ?st2 = "if get32 page 4 > ?maxLeaves
                then ?st1 \<lparr> ff_diags := ff_diags ?st1 @
                              [InvalidLeafCount pgno (get32 page 4) ?maxLeaves] \<rparr>
                else ?st1"
    let ?numLeaves = "if get32 page 4 > ?maxLeaves then ?maxLeaves else get32 page 4"
    let ?st3 = "fold (\<lambda>i s. (let s1 = markFreelist g (get32 page (8 + i * 4)) s
                              in s1 \<lparr> ff_leafCount := ff_leafCount s1 + 1 \<rparr>))
                  [0..<unat ?numLeaves] ?st2"
    have step: "freelistfind_walk_loop (Suc n) g pgno visited ff
                  = freelistfind_walk_loop n g (get32 page 0) ?v ?st3"
      using rd nz nv by (simp add: Let_def)
    have tl: "length (trunk_leaves g page) = unat ?numLeaves"
      by (simp add: trunk_leaves_def Let_def)
    have f2: "\<forall>p. p < 1 \<or> p > mxPage g \<longrightarrow> inFreelist ?st2 p = inFreelist ff p"
      "ff_leafCount ?st2 = ff_leafCount ff"
      by (auto simp: markFreelist_def not_less not_le)
    have f3: "\<forall>p. p < 1 \<or> p > mxPage g \<longrightarrow> inFreelist ?st3 p = inFreelist ff p"
      "ff_leafCount ?st3 = ff_leafCount ff + of_nat (length (trunk_leaves g page))"
      using fold_markFreelist_leaves [of g "\<lambda>i. get32 page (8 + i * 4)" "[0..<unat ?numLeaves]" ?st2]
        f2 unfolding tl by simp_all
    from Suc.IH [of "get32 page 0" ?v ?st3] show ?thesis
      unfolding step using rd nz nv f3
      by (auto split: option.splits sum.splits)
  qed
qed

text \<open>
  Claim C4, as amended. A trunk pointer that is not zero and lies beyond \<open>mxPage\<close> ends the walk
  with an error in all three tools (the read of the page fails). A leaf entry is never checked
  and never ends the walk: each of the three walks ends exactly as the chain of trunk pointers
  alone does (out of fuel, with the same error, or with success), whatever the leaf entries
  are. On success \<open>walkFreelist\<close> of pageacct.c has left every page outside \<open>1..mxPage\<close>
  unmarked (\<open>markPage\<close> returns at its range guard) and has printed nothing about such a
  page; freelistck.c has recorded every leaf entry of every trunk, in range or not, and
  counted it; freelistfind.c has left every page outside \<open>1..mxPage\<close> out of its bitmap
  (\<open>markFreelist\<close> has the same guard) and counted every leaf entry.
\<close>

theorem freelist_range_checks:
  "(pgno \<noteq> 0 \<and> pgno > mxPage g \<longrightarrow>
       (\<exists>e. walkFreelist_loop (Suc n) g pgno visited st = Some (Inl e))
     \<and> (\<exists>e. freelistck_walk_loop (Suc n) g pgno visited ck = Some (Inl e))
     \<and> (\<exists>e. freelistfind_walk_loop (Suc n) g pgno visited ff = Some (Inl e)))
   \<and> (leaf < 1 \<or> leaf > mxPage g \<longrightarrow>
       markPage g leaf PAGE_FREELIST_LEAF parent st = st
     \<and> markFreelist g leaf ff = ff)
   \<and> (case spec_trunk_chain n g pgno visited of
         None \<Rightarrow>
           walkFreelist_loop n g pgno visited st = None
           \<and> freelistck_walk_loop n g pgno visited ck = None
           \<and> freelistfind_walk_loop n g pgno visited ff = None
       | Some (Inl e) \<Rightarrow>
           walkFreelist_loop n g pgno visited st = Some (Inl e)
           \<and> freelistck_walk_loop n g pgno visited ck = Some (Inl e)
           \<and> freelistfind_walk_loop n g pgno visited ff = Some (Inl e)
       | Some (Inr ts) \<Rightarrow>
           (\<exists>st'. walkFreelist_loop n g pgno visited st = Some (Inr st')
                \<and> out_of_range_untouched g st st')
           \<and> (\<exists>ck'. freelistck_walk_loop n g pgno visited ck = Some (Inr ck')
                \<and> freelist ck' = freelist ck @ spec_entries ts
                \<and> leafCount ck' = leafCount ck + of_nat (length (concat (map snd ts))))
           \<and> (\<exists>ff'. freelistfind_walk_loop n g pgno visited ff = Some (Inr ff')
                \<and> (\<forall>p. p < 1 \<or> p > mxPage g \<longrightarrow> inFreelist ff' p = inFreelist ff p)
                \<and> ff_leafCount ff' = ff_leafCount ff + of_nat (length (concat (map snd ts)))))"
proof -
  have trunk: "(\<exists>e. walkFreelist_loop (Suc n) g pgno visited st = Some (Inl e))
     \<and> (\<exists>e. freelistck_walk_loop (Suc n) g pgno visited ck = Some (Inl e))
     \<and> (\<exists>e. freelistfind_walk_loop (Suc n) g pgno visited ff = Some (Inl e))"
    if "pgno \<noteq> 0" "pgno > mxPage g"
    using that by (simp add: readPage_out_of_range Let_def)
  have leaf: "markPage g leaf PAGE_FREELIST_LEAF parent st = st \<and> markFreelist g leaf ff = ff"
    if "leaf < 1 \<or> leaf > mxPage g"
    using that by (auto simp: markPage_def markFreelist_def Let_def not_le)
  have chain: "case spec_trunk_chain n g pgno visited of
         None \<Rightarrow>
           walkFreelist_loop n g pgno visited st = None
           \<and> freelistck_walk_loop n g pgno visited ck = None
           \<and> freelistfind_walk_loop n g pgno visited ff = None
       | Some (Inl e) \<Rightarrow>
           walkFreelist_loop n g pgno visited st = Some (Inl e)
           \<and> freelistck_walk_loop n g pgno visited ck = Some (Inl e)
           \<and> freelistfind_walk_loop n g pgno visited ff = Some (Inl e)
       | Some (Inr ts) \<Rightarrow>
           (\<exists>st'. walkFreelist_loop n g pgno visited st = Some (Inr st')
                \<and> out_of_range_untouched g st st')
           \<and> (\<exists>ck'. freelistck_walk_loop n g pgno visited ck = Some (Inr ck')
                \<and> freelist ck' = freelist ck @ spec_entries ts
                \<and> leafCount ck' = leafCount ck + of_nat (length (concat (map snd ts))))
           \<and> (\<exists>ff'. freelistfind_walk_loop n g pgno visited ff = Some (Inr ff')
                \<and> (\<forall>p. p < 1 \<or> p > mxPage g \<longrightarrow> inFreelist ff' p = inFreelist ff p)
                \<and> ff_leafCount ff' = ff_leafCount ff + of_nat (length (concat (map snd ts))))"
    using walkFreelist_loop_chain [of n g pgno visited st]
      freelistck_walk_loop_chain [of n g pgno visited ck]
      freelistfind_walk_loop_chain [of n g pgno visited ff]
    by (simp split: option.splits sum.splits)
  from trunk leaf chain show ?thesis by blast
qed

text \<open>The claim as stated fails for leaves: in \<open>bad_leaf_file\<close> the trunk lists page 99 of a
  two-page file, and all three walks return success.\<close>

theorem out_of_range_leaf_counterexample:
  "mxPage (db_of bad_leaf_file) = 2
   \<and> get32 (the (readPage (db_of bad_leaf_file) 2)) 8 = 99
   \<and> (case walkFreelist 3 (db_of bad_leaf_file) acct_init of
         Some (Inr st) \<Rightarrow> pageTypes st 2 = PAGE_FREELIST_TRUNK \<and> diags st = []
       | _ \<Rightarrow> False)
   \<and> (case freelistck_walkFreelist 3 (db_of bad_leaf_file) of
         Some (Inr ck) \<Rightarrow> freelist ck = [(2, True, 0), (99, False, 2)] \<and> leafCount ck = 1
       | _ \<Rightarrow> False)
   \<and> (case freelistfind_walkFreelist 3 (db_of bad_leaf_file) of
         Some (Inr ff) \<Rightarrow> ff_leafCount ff = 1 \<and> ff_diags ff = []
       | _ \<Rightarrow> False)"
  by code_simp

theorem freelist_range_checks_witness:
  "(99 :: u32) \<noteq> 0 \<and> 99 > mxPage (db_of bad_leaf_file)
   \<and> (\<exists>e. walkFreelist_loop (Suc 0) (db_of bad_leaf_file) 99 [] acct_init = Some (Inl e))
   \<and> (\<exists>e. freelistck_walk_loop (Suc 0) (db_of bad_leaf_file) 99 [] flck_init = Some (Inl e))
   \<and> (\<exists>e. freelistfind_walk_loop (Suc 0) (db_of bad_leaf_file) 99 [] flfind_init = Some (Inl e))
   \<and> markPage (db_of bad_leaf_file) 99 PAGE_FREELIST_LEAF 2 acct_init = acct_init
   \<and> markFreelist (db_of bad_leaf_file) 99 flfind_init = flfind_init
   \<and> spec_trunk_chain 3 (db_of bad_leaf_file) 2 [] = Some (Inr [(2, [99])])
   \<and> (\<exists>st'. walkFreelist_loop 3 (db_of bad_leaf_file) 2 [] acct_init = Some (Inr st')
          \<and> pageTypes st' 99 = PAGE_UNKNOWN)
   \<and> (\<exists>ck'. freelistck_walk_loop 3 (db_of bad_leaf_file) 2 [] flck_init = Some (Inr ck')
          \<and> freelist ck' = [(2, True, 0), (99, False, 2)] \<and> leafCount ck' = 1)
   \<and> (\<exists>ff'. freelistfind_walk_loop 3 (db_of bad_leaf_file) 2 [] flfind_init = Some (Inr ff')
          \<and> inFreelist ff' 99 = False \<and> ff_leafCount ff' = 1)"
proof -
  let ?g = "db_of bad_leaf_file"
  have m: "mxPage ?g = 2"
    by code_simp
  have h: "(99 :: u32) \<noteq> 0 \<and> 99 > mxPage ?g"
    by (simp add: m)
  then have l: "(99 :: u32) < 1 \<or> 99 > mxPage ?g"
    by simp
  have c: "spec_trunk_chain 3 ?g 2 [] = Some (Inr [(2, [99])])"
    by code_simp
  from freelist_range_checks [of 99 ?g 0 "[]" acct_init flck_init flfind_init 99 2] h l
  have a: "(\<exists>e. walkFreelist_loop (Suc 0) ?g 99 [] acct_init = Some (Inl e))
     \<and> (\<exists>e. freelistck_walk_loop (Suc 0) ?g 99 [] flck_init = Some (Inl e))
     \<and> (\<exists>e. freelistfind_walk_loop (Suc 0) ?g 99 [] flfind_init = Some (Inl e))
     \<and> markPage ?g 99 PAGE_FREELIST_LEAF 2 acct_init = acct_init
     \<and> markFreelist ?g 99 flfind_init = flfind_init"
    by blast
  from freelist_range_checks [of 2 ?g 3 "[]" acct_init flck_init flfind_init 99 2] c
  have b: "(\<exists>st'. walkFreelist_loop 3 ?g 2 [] acct_init = Some (Inr st')
                \<and> out_of_range_untouched ?g acct_init st')
           \<and> (\<exists>ck'. freelistck_walk_loop 3 ?g 2 [] flck_init = Some (Inr ck')
                \<and> freelist ck' = freelist flck_init @ spec_entries [(2, [99])]
                \<and> leafCount ck' = leafCount flck_init + of_nat (length (concat (map snd [(2 :: u32, [99 :: u32])]))))
           \<and> (\<exists>ff'. freelistfind_walk_loop 3 ?g 2 [] flfind_init = Some (Inr ff')
                \<and> (\<forall>p. p < 1 \<or> p > mxPage ?g \<longrightarrow> inFreelist ff' p = inFreelist flfind_init p)
                \<and> ff_leafCount ff' = ff_leafCount flfind_init + of_nat (length (concat (map snd [(2 :: u32, [99 :: u32])]))))"
    by simp
  from b l have b1: "\<exists>st'. walkFreelist_loop 3 ?g 2 [] acct_init = Some (Inr st')
          \<and> pageTypes st' 99 = PAGE_UNKNOWN"
    unfolding out_of_range_untouched_def by (auto simp: acct_init_def)
  from b have b2: "\<exists>ck'. freelistck_walk_loop 3 ?g 2 [] flck_init = Some (Inr ck')
          \<and> freelist ck' = [(2, True, 0), (99, False, 2)] \<and> leafCount ck' = 1"
    by (auto simp: flck_init_def spec_entries_def)
  from b l have b3: "\<exists>ff'. freelistfind_walk_loop 3 ?g 2 [] flfind_init = Some (Inr ff')
          \<and> inFreelist ff' 99 = False \<and> ff_leafCount ff' = 1"
    by (auto simp: flfind_init_def)
  from h a c b1 b2 b3 show ?thesis by blast
qed

lemma markPage_diags:
  "set (diags (markPage g pgno t parent st))
     \<subseteq> set (diags st) \<union> {Conflict pgno (pageTypes st pgno) (pageParents st pgno) t parent}"
  by (auto simp: markPage_def Let_def)

lemma fold_markPage_no_count_report:
  "InvalidLeafCount a b c \<in> set (diags (fold (\<lambda>i s. markPage g (f i) t parent s) xs st)) \<Longrightarrow>
     InvalidLeafCount a b c \<in> set (diags st)"
proof (induction xs arbitrary: st)
  case Nil
  then show ?case by simp
next
  case (Cons x xs)
  from Cons.IH [of "markPage g (f x) t parent st"] Cons.prems
  have "InvalidLeafCount a b c \<in> set (diags (markPage g (f x) t parent st))"
    by simp
  with markPage_diags [of g "f x" t parent st] show ?case by auto
qed

lemma walkFreelist_never_reports_count:
  "walkFreelist_loop n g pgno visited st = Some (Inr st') \<Longrightarrow>
   InvalidLeafCount a b c \<in> set (diags st') \<Longrightarrow> InvalidLeafCount a b c \<in> set (diags st)"
proof (induction n arbitrary: pgno visited st)
  case 0
  then show ?case by simp
next
  case (Suc n)
  show ?case
  proof (cases "pgno = 0")
    case True
    with Suc.prems show ?thesis by simp
  next
    case False
    from Suc.prems(1) False obtain page where
      rd: "readPage g pgno = Some page" and nv: "pgno \<notin> set visited"
      by (auto split: if_splits option.splits)
    let ?st1 = "markPage g pgno PAGE_FREELIST_TRUNK 0 st"
    let ?maxLeaves = "(pagesize g - 8) div 4"
    let ?numLeaves = "if get32 page 4 > ?maxLeaves then ?maxLeaves else get32 page 4"
    let ?st2 = "fold (\<lambda>i s. markPage g (get32 page (8 + i * 4)) PAGE_FREELIST_LEAF pgno s)
                  [0..<unat ?numLeaves] ?st1"
    from Suc.prems(1) False rd nv
    have "walkFreelist_loop n g (get32 page 0)
            (if length visited < 10000 then visited @ [pgno] else visited) ?st2 = Some (Inr st')"
      by (simp add: Let_def)
    from Suc.IH [OF this Suc.prems(2)]
    have "InvalidLeafCount a b c \<in> set (diags ?st2)" .
    then have "InvalidLeafCount a b c \<in> set (diags ?st1)"
      by (rule fold_markPage_no_count_report)
    with markPage_diags [of g pgno PAGE_FREELIST_TRUNK 0 st] show ?thesis by auto
  qed
qed

text \<open>
  Claim C6. A trunk whose stored leaf count exceeds \<open>(pagesize - 8) / 4\<close>: the walker reports
  the invalid count, clamps it, emits that many leaves and goes on to the next trunk. On
  \<open>clamp_file\<close> freelistck.c does all of this (one report, 126 leaves, both trunks seen);
  pageacct.c clamps and goes on to trunk 3 but reports nothing (and never does, on any
  input: \<open>walkFreelist_never_reports_count\<close>).
\<close>

theorem clamped_leaf_count_not_reported:
  "get32 (the (readPage (db_of clamp_file) 2)) 4 = 200
   \<and> (case freelistck_walkFreelist 4 (db_of clamp_file) of
         Some (Inr ck) \<Rightarrow> ck_diags ck = [InvalidLeafCount 2 200 126]
                          \<and> trunkCount ck = 2 \<and> leafCount ck = 126
                          \<and> map fst (filter (\<lambda>e. fst (snd e)) (freelist ck)) = [2, 3]
       | _ \<Rightarrow> False)
   \<and> (case walkFreelist 4 (db_of clamp_file) acct_init of
         Some (Inr st) \<Rightarrow> diags st = []
                          \<and> pageTypes st 2 = PAGE_FREELIST_TRUNK
                          \<and> pageTypes st 3 = PAGE_FREELIST_TRUNK
       | _ \<Rightarrow> False)"
  by code_simp


section \<open>Results: cell-pointer array\<close>

text \<open>
  Claim C8. The cell-pointer array starts right after the page header, at \<open>hdr + 8\<close> on a leaf.
  In \<open>one_row_file\<close> the array of page 2 points to the cell of rowid 1. \<open>processLeafPage\<close> of
  tablewalk.c reads the array at \<open>hdr + 8\<close> and finds the row; \<open>searchLeaf\<close> of dumprow.c reads
  it at \<open>hdr + 8 + 12\<close>, gets offset 0, skips the cell, and the walk ends without the row.
\<close>

theorem leaf_cell_pointers_misread:
  "read16 one_row_leaf 8 = 508
   \<and> readVarint one_row_leaf 509 = (1, 1)
   \<and> read16 one_row_leaf (8 + 12) = 0
   \<and> (case dumprow_walkBtree 1 (dumprow_ctx one_row_file 1 (zeros 512)) 2 of
         Some ctx \<Rightarrow> \<not> found ctx \<and> pageBuf ctx = one_row_leaf
       | None \<Rightarrow> False)
   \<and> foundTarget (processLeafPage (tablewalk_ctx one_row_file 1) 2 one_row_leaf)
   \<and> tw_dumped (processLeafPage (tablewalk_ctx one_row_file 1) 2 one_row_leaf)
       = Some \<lparr> hit_cellOffset = 508, hit_payloadSize = 2, hit_local = 2, hit_overflow = None \<rparr>"
  by code_simp


section \<open>Results: the b-tree walkers on a pointer cycle\<close>

lemma walkBtree_guard:
  "pgno < 1 \<or> pgno > mxPage g \<or> pageTypes st pgno \<noteq> PAGE_UNKNOWN \<or> depth > 50 \<Longrightarrow>
     walkBtree g pgno parent depth st = st"
  by (subst walkBtree.simps) auto

lemma freelistfind_walkBtree_guard:
  "pgno < 1 \<or> pgno > mxPage g \<or> inUse pgno \<or> depth > 50 \<Longrightarrow>
     freelistfind_walkBtree n g pgno depth inUse = Some inUse"
  by (subst freelistfind_walkBtree.simps) auto

lemma read16_append: "k + 1 < length p \<Longrightarrow> read16 (p @ r) k = read16 p k"
  by (simp add: read16_def nth_append)

lemma read32_append: "k + 3 < length p \<Longrightarrow> read32 (p @ r) k = read32 p k"
  by (simp add: read32_def nth_append)

lemma self_child_page_facts:
  "length self_child_page = 512" "self_child_page ! 0 = 5"
  "read16 self_child_page 3 = 0" "read32 self_child_page 8 = 2"
  "take 512 (drop 512 self_child_file) = self_child_page"
  by code_simp+

lemma dumprow_self_child_diverges:
  "pageSize ctx = 512 \<Longrightarrow> totalPages ctx = 2 \<Longrightarrow> ctx_db ctx = self_child_file \<Longrightarrow>
   \<not> found ctx \<Longrightarrow> dumprow_walkBtree n ctx 2 = None"
proof (induction n arbitrary: ctx)
  case 0
  show ?case by (simp add: dumprow_walkBtree.simps)
next
  case (Suc n)
  let ?buf = "self_child_page @ drop 512 (pageBuf ctx)"
  let ?ctx1 = "ctx \<lparr> pageBuf := ?buf \<rparr>"
  have rd: "dumprow_readPage ctx 2 (pageBuf ctx) = (True, ?buf)"
    using Suc.prems by (simp add: dumprow_readPage_def self_child_page_facts Let_def)
  have ty: "?buf ! 0 = 5"
    by (simp add: nth_append self_child_page_facts)
  have nc: "read16 ?buf 3 = 0"
    by (simp add: read16_append self_child_page_facts)
  have rc: "read32 ?buf 8 = 2"
    by (simp add: read32_append self_child_page_facts)
  have "dumprow_walkBtree (Suc n) ctx 2 = dumprow_walkCells n ?ctx1 0 0 0"
    using Suc.prems rd ty nc by (simp add: dumprow_walkBtree.simps)
  also have "\<dots> = dumprow_walkBtree n ?ctx1 2"
    using rc by (subst dumprow_walkCells.simps) simp
  also have "\<dots> = None"
    using Suc.prems by (intro Suc.IH) simp_all
  finally show ?case .
qed

text \<open>
  Claim C2. The walker returns at once for a page number outside \<open>1..max_page\<close>, for a page
  already visited and for a depth above 50, so a pointer cycle cannot keep it running.
  \<open>walkBtree\<close> of pageacct.c and of freelistfind.c have the three guards (\<open>walkBtree_guard\<close>,
  \<open>freelistfind_walkBtree_guard\<close>), and their recursion is bounded by the depth.
  \<open>walkBtree\<close> of dumprow.c checks the page range only: on \<open>self_child_file\<close>, where the
  rightmost child of page 2 is page 2, its recursion has no end, whatever the depth allowed,
  while pageacct.c classifies page 2 and returns.
\<close>

theorem dumprow_walk_has_no_cycle_guard:
  "dumprow_walkBtree n (dumprow_ctx self_child_file rowid buf) 2 = None
   \<and> pageTypes (walkBtree (db_of self_child_file) 2 0 0 acct_init) 2 = PAGE_BTREE_INTERIOR_TABLE"
proof -
  have "readPageSize self_child_file = 512" "read32 self_child_file 28 = 2"
    by code_simp+
  then have "dumprow_walkBtree n (dumprow_ctx self_child_file rowid buf) 2 = None"
    by (intro dumprow_self_child_diverges) (simp_all add: dumprow_ctx_def)
  moreover
  have "pageTypes (walkBtree (db_of self_child_file) 2 0 0 acct_init) 2 = PAGE_BTREE_INTERIOR_TABLE"
    by code_simp
  ultimately show ?thesis by simp
qed

section \<open>Results: overflow chains with a cycle\<close>

lemma overflow_cycle_facts:
  "mxPage (db_of overflow_cycle_file) = 3"
  "readPage (db_of overflow_cycle_file) 3 = Some self_next_page"
  "get32 self_next_page 0 = 3" "read32 self_next_page 0 = 3"
  "readPageSize overflow_cycle_file = 512" "read32 overflow_cycle_file 28 = 3"
  "readBytes overflow_cycle_file 1024 512 = Some self_next_page"
  by code_simp+

lemma freelistfind_overflow_cycle_diverges:
  "freelistfind_walkOverflow n (db_of overflow_cycle_file) 3 inUse = None"
proof (induction n arbitrary: inUse)
  case 0
  show ?case by simp
next
  case (Suc n)
  show ?case
    by (simp add: overflow_cycle_facts Let_def Suc.IH)
qed

lemma pageowner_overflow_cycle_diverges:
  "po_pageSize ctx = 512 \<Longrightarrow> po_totalPages ctx = 3 \<Longrightarrow> po_db ctx = overflow_cycle_file \<Longrightarrow>
   pageowner_walkOverflow n ctx 3 = None"
proof (induction n arbitrary: ctx)
  case 0
  show ?case by simp
next
  case (Suc n)
  let ?ctx1 = "markPageOwned ctx 3"
  have f: "po_pageSize ?ctx1 = 512" "po_totalPages ?ctx1 = 3" "po_db ?ctx1 = overflow_cycle_file"
    using Suc.prems by (simp_all add: markPageOwned_def)
  have rd: "pageowner_readPage ?ctx1 3 = Some self_next_page"
    using f by (simp add: pageowner_readPage_def overflow_cycle_facts)
  show ?case
    using rd Suc.IH [OF f] by (simp add: overflow_cycle_facts Let_def)
qed

lemma overflow_cell_leaf_facts:
  "readPage (db_of overflow_cycle_file) 2 = Some overflow_cell_leaf"
  "pagesize (db_of overflow_cycle_file) = 512"
  "reservedSpace (db_of overflow_cycle_file) = 0"
  "overflow_cell_leaf ! 0 = 13"
  "read16 overflow_cell_leaf 3 = 1"
  "read16 overflow_cell_leaf 8 = 413"
  "decodeVarint overflow_cell_leaf 413 = (600, 2)"
  "decodeVarint overflow_cell_leaf 415 = (1, 1)"
  "get32 overflow_cell_leaf 508 = 3"
  by code_simp+

lemma freelistfind_overflow_cell:
  "freelistfind_leafCell n (db_of overflow_cycle_file) overflow_cell_leaf 13 8 0 inUse = None"
  by (simp add: freelistfind_leafCell_def overflow_cell_leaf_facts overflow_cycle_facts
        i64_rem_def word_sless_alt Let_def freelistfind_overflow_cycle_diverges)

lemma freelistfind_walk_overflow_cycle:
  "freelistfind_walkBtree n (db_of overflow_cycle_file) 2 0 (\<lambda>p. False) = None"
  by (subst freelistfind_walkBtree.simps)
     (simp add: overflow_cell_leaf_facts overflow_cycle_facts Let_def
        freelistfind_overflow_cell)

text \<open>
  Claim C3. The overflow loop stops at next = 0, at a page number outside \<open>1..max_page\<close> and at
  a page already seen, so it ends on a chain with a cycle. The loop of pageacct.c does
  (\<open>walkOverflow\<close> is a total function: every round classifies a new page). The loops of
  freelistfind.c and pageowner.c do not look at whether the page was seen: on
  \<open>overflow_cycle_file\<close>, where overflow page 3 names itself as next, \<open>walkBtree\<close> of
  freelistfind.c started at the table leaf 2 never returns, and neither does either loop once
  it is entered with page 3, while pageacct.c classifies page 3 as overflow once and returns.
\<close>

theorem overflow_loop_has_no_cycle_guard:
  "freelistfind_walkBtree n (db_of overflow_cycle_file) 2 0 (\<lambda>p. False) = None
   \<and> freelistfind_walkOverflow n (db_of overflow_cycle_file) 3 inUse = None
   \<and> pageowner_walkOverflow n (pageowner_ctx overflow_cycle_file owner) 3 = None
   \<and> pageTypes (walkBtree (db_of overflow_cycle_file) 2 0 0 acct_init) 2 = PAGE_BTREE_LEAF_TABLE
   \<and> pageTypes (walkBtree (db_of overflow_cycle_file) 2 0 0 acct_init) 3 = PAGE_OVERFLOW"
proof -
  have "pageowner_walkOverflow n (pageowner_ctx overflow_cycle_file owner) 3 = None"
    by (intro pageowner_overflow_cycle_diverges)
       (simp_all add: pageowner_ctx_def overflow_cycle_facts)
  moreover
  have "pageTypes (walkBtree (db_of overflow_cycle_file) 2 0 0 acct_init) 2 = PAGE_BTREE_LEAF_TABLE
      \<and> pageTypes (walkBtree (db_of overflow_cycle_file) 2 0 0 acct_init) 3 = PAGE_OVERFLOW"
    by code_simp
  ultimately show ?thesis
    using freelistfind_overflow_cycle_diverges freelistfind_walk_overflow_cycle by simp
qed


section \<open>Results: what the phases after the freelist walk can change\<close>

lemma keeps_refl: "keeps T st st"
  by (simp add: keeps_def)

lemma keeps_trans: "keeps T a b \<Longrightarrow> keeps T b c \<Longrightarrow> keeps T a c"
  unfolding keeps_def by metis

lemma keeps_mono: "keeps T a b \<Longrightarrow> T \<subseteq> T' \<Longrightarrow> keeps T' a b"
  unfolding keeps_def by blast

lemma keeps_counters:
  "keeps T a b \<Longrightarrow> keeps T a (b \<lparr> ptrmapGhostCount := x \<rparr>)"
  "keeps T a b \<Longrightarrow> keeps T a (b \<lparr> ptrmapMissingCount := y \<rparr>)"
  "keeps T a b \<Longrightarrow> keeps T a (b \<lparr> orphanCount := z \<rparr>)"
  by (simp_all add: keeps_def)

lemma keeps_markPage:
  assumes "keeps T a b" "pageTypes b pgno = PAGE_UNKNOWN" "t \<in> T"
  shows "keeps T a (markPage g pgno t parent b)"
proof -
  have "keeps T b (markPage g pgno t parent b)"
    using assms(2,3) by (simp add: keeps_def markPage_def Let_def)
  with assms(1) show ?thesis by (rule keeps_trans)
qed

lemma keeps_fold:
  assumes "keeps T a b" "\<And>x s. keeps T s (f x s)"
  shows "keeps T a (fold f xs b)"
  using assms(1)
proof (induction xs arbitrary: b)
  case Nil
  then show ?case by simp
next
  case (Cons x xs)
  have "keeps T a (f x b)"
    using Cons.prems assms(2) by (rule keeps_trans)
  then show ?case
    by (simp add: Cons.IH)
qed

lemma walkOverflow_keeps: "keeps {PAGE_OVERFLOW} st (walkOverflow g pgno overflowPage st)"
proof (induction g pgno overflowPage st rule: walkOverflow.induct)
  case (1 g pgno overflowPage st)
  show ?case
  proof (cases "overflowPage > 0 \<and> overflowPage \<le> mxPage g
                \<and> pageTypes st overflowPage = PAGE_UNKNOWN")
    case False
    then show ?thesis
      by (subst walkOverflow.simps) (auto simp: keeps_refl)
  next
    case True
    let ?st1 = "markPage g overflowPage PAGE_OVERFLOW pgno st"
    have k1: "keeps {PAGE_OVERFLOW} st ?st1"
      using True by (intro keeps_markPage keeps_refl) simp_all
    show ?thesis
    proof (cases "readPage g overflowPage")
      case None
      then show ?thesis
        using True k1 by (subst walkOverflow.simps) (simp add: Let_def)
    next
      case (Some ovfl)
      have "keeps {PAGE_OVERFLOW} ?st1 (walkOverflow g pgno (get32 ovfl 0) ?st1)"
        using True Some by (intro "1.IH") simp_all
      with k1 have "keeps {PAGE_OVERFLOW} st (walkOverflow g pgno (get32 ovfl 0) ?st1)"
        by (rule keeps_trans)
      then show ?thesis
        using True Some by (subst walkOverflow.simps) (simp add: Let_def)
    qed
  qed
qed

lemma keeps_walkOverflow:
  "keeps btree_roles a b \<Longrightarrow> keeps btree_roles a (walkOverflow g pgno overflowPage b)"
  by (rule keeps_trans, assumption, rule keeps_mono [OF walkOverflow_keeps])
     (simp add: btree_roles_def)

lemma cellOverflow_keeps: "keeps btree_roles s (cellOverflow g page pgno cell maxLocal nPayload s)"
  by (simp add: cellOverflow_def Let_def keeps_refl keeps_walkOverflow)

lemma interiorIndexCell_keeps: "keeps btree_roles s (interiorIndexCell g page pgno cellStart i s)"
  by (simp add: interiorIndexCell_def Let_def keeps_refl cellOverflow_keeps split: prod.splits)

lemma leafCell_keeps: "keeps btree_roles s (leafCell g page pgno pageType cellStart i s)"
  by (simp add: leafCell_def Let_def keeps_refl cellOverflow_keeps split: prod.splits)

lemma ghostCheck_fields [simp]:
  "pageTypes (ghostCheck g pgno st) = pageTypes st"
  "pageParents (ghostCheck g pgno st) = pageParents st"
  "diags (ghostCheck g pgno st) = diags st"
  by (simp_all add: ghostCheck_def split: option.splits)

lemma ghostCheck_keeps: "keeps T st (ghostCheck g pgno st)"
  by (simp add: keeps_def)

lemma btree_type_role: "btree_type b = Some t \<Longrightarrow> t \<in> btree_roles"
  by (auto simp: btree_type_def btree_roles_def split: if_splits)

lemma walkBtree_keeps: "keeps btree_roles st (walkBtree g pgno parent depth st)"
proof (induction "nat (51 - depth)" arbitrary: pgno parent depth st rule: less_induct)
  case less
  show ?case
  proof (cases "pgno < 1 \<or> pgno > mxPage g \<or> pageTypes st pgno \<noteq> PAGE_UNKNOWN \<or> depth > 50")
    case True
    then show ?thesis
      by (simp add: walkBtree_guard keeps_refl)
  next
    case False
    then have d: "nat (51 - (depth + 1)) < nat (51 - depth)"
      by simp
    have rec: "keeps btree_roles a (walkBtree g q p' (depth + 1) b)"
      if "keeps btree_roles a b" for a b q p'
      using that less.hyps [OF d] by (rule keeps_trans)
    show ?thesis
      using False
      by (subst walkBtree.simps)
         (auto simp: Let_def ghostCheck_keeps btree_type_role
               split: option.splits
               intro!: keeps_fold rec keeps_markPage keeps_refl
                       interiorIndexCell_keeps leafCell_keeps)
  qed
qed


lemma markPtrmapPages_body_keeps: "keeps {PAGE_PTRMAP} st (markPtrmapPages_body g pgno st)"
  by (auto simp: markPtrmapPages_body_def Let_def split: option.splits
           intro!: keeps_counters keeps_markPage keeps_refl)

lemma markPtrmapPages_loop_keeps:
  "markPtrmapPages_loop n g pgno st = Some st' \<Longrightarrow> keeps {PAGE_PTRMAP} st st'"
proof (induction n arbitrary: pgno st)
  case 0
  then show ?case by simp
next
  case (Suc n)
  show ?case
  proof (cases "pgno \<le> mxPage g")
    case False
    with Suc.prems show ?thesis by (simp add: keeps_refl)
  next
    case True
    with Suc.prems have "keeps {PAGE_PTRMAP} (markPtrmapPages_body g pgno st) st'"
      by (intro Suc.IH) simp
    with markPtrmapPages_body_keeps show ?thesis by (rule keeps_trans)
  qed
qed

lemma markPtrmapPages_keeps:
  assumes "markPtrmapPages n g st = Some st'"
  shows "keeps {PAGE_PTRMAP} st st'"
proof -
  let ?st0 = "st \<lparr> ptrmapGhostCount := 0, ptrmapMissingCount := 0 \<rparr>"
  have "keeps {PAGE_PTRMAP} st ?st0"
    by (simp add: keeps_def)
  moreover have "keeps {PAGE_PTRMAP} ?st0 st'"
    using assms unfolding markPtrmapPages_def by (rule markPtrmapPages_loop_keeps)
  ultimately show ?thesis by (rule keeps_trans)
qed

lemma walkAllBtrees_keeps:
  "walkAllBtrees g schema st = Inr st' \<Longrightarrow> keeps btree_roles st st'"
  by (auto simp: walkAllBtrees_def Let_def split: option.splits
           intro!: keeps_fold walkBtree_keeps)

lemma classifyOrphan_keeps: "keeps orphan_roles st (classifyOrphan g i st)"
  by (auto simp: classifyOrphan_def orphan_def Let_def keeps_def orphan_roles_def
           split: option.splits)

lemma classifyOrphanedPages_keeps:
  "classifyOrphanedPages g st = Some st' \<Longrightarrow> keeps orphan_roles st st'"
  by (auto simp: classifyOrphanedPages_def split: if_splits
           intro!: keeps_fold classifyOrphan_keeps keeps_counters keeps_refl)

lemma account_phases:
  assumes "account n g schema = Some (Inr r)"
  obtains st1 where "walkFreelist n g acct_init = Some (Inr st1)"
    and "keeps later_roles st1 (final r)" and "count_of r = counts g (final r)"
proof -
  from assms obtain st1 st2 st3 st4 where
    p1: "walkFreelist n g acct_init = Some (Inr st1)"
    and p2: "markPtrmapPages n g st1 = Some st2"
    and p3: "walkAllBtrees g schema st2 = Inr st3"
    and p4: "classifyOrphanedPages g st3 = Some st4"
    and r: "r = printReport g st4"
    by (auto simp: account_def split: option.splits sum.splits)
  have "keeps later_roles st1 st2"
    using markPtrmapPages_keeps [OF p2] by (rule keeps_mono) (auto simp: later_roles_def)
  moreover have "keeps later_roles st2 st3"
    using walkAllBtrees_keeps [OF p3] by (rule keeps_mono) (auto simp: later_roles_def)
  moreover have "keeps later_roles st3 st4"
    using classifyOrphanedPages_keeps [OF p4] by (rule keeps_mono) (auto simp: later_roles_def)
  ultimately have "keeps later_roles st1 st4"
    by (blast intro: keeps_trans)
  with p1 r that show thesis
    by (simp add: printReport_def)
qed


section \<open>Results: the lock-byte role\<close>

lemma markPage_no_lockbyte:
  "t \<noteq> PAGE_LOCKBYTE \<Longrightarrow> \<forall>p. pageTypes st p \<noteq> PAGE_LOCKBYTE \<Longrightarrow>
     \<forall>p. pageTypes (markPage g pgno t parent st) p \<noteq> PAGE_LOCKBYTE"
  by (simp add: markPage_types)

lemma fold_markPage_no_lockbyte:
  "t \<noteq> PAGE_LOCKBYTE \<Longrightarrow> \<forall>p. pageTypes st p \<noteq> PAGE_LOCKBYTE \<Longrightarrow>
     \<forall>p. pageTypes (fold (\<lambda>i s. markPage g (f i) t parent s) xs st) p \<noteq> PAGE_LOCKBYTE"
proof (induction xs arbitrary: st)
  case Nil
  then show ?case by simp
next
  case (Cons x xs)
  have "\<forall>p. pageTypes (markPage g (f x) t parent st) p \<noteq> PAGE_LOCKBYTE"
    using Cons.prems by (rule markPage_no_lockbyte)
  from Cons.IH [OF Cons.prems(1) this] show ?case by simp
qed

lemma walkFreelist_loop_no_lockbyte:
  "walkFreelist_loop n g pgno visited st = Some (Inr st') \<Longrightarrow>
   \<forall>p. pageTypes st p \<noteq> PAGE_LOCKBYTE \<Longrightarrow> \<forall>p. pageTypes st' p \<noteq> PAGE_LOCKBYTE"
proof (induction n arbitrary: pgno visited st)
  case 0
  then show ?case by simp
next
  case (Suc n)
  show ?case
  proof (cases "pgno = 0")
    case True
    with Suc.prems show ?thesis by simp
  next
    case False
    from Suc.prems(1) False obtain page where
      rd: "readPage g pgno = Some page" and nv: "pgno \<notin> set visited"
      by (auto split: if_splits option.splits)
    let ?st1 = "markPage g pgno PAGE_FREELIST_TRUNK 0 st"
    let ?maxLeaves = "(pagesize g - 8) div 4"
    let ?numLeaves = "if get32 page 4 > ?maxLeaves then ?maxLeaves else get32 page 4"
    let ?st2 = "fold (\<lambda>i s. markPage g (get32 page (8 + i * 4)) PAGE_FREELIST_LEAF pgno s)
                  [0..<unat ?numLeaves] ?st1"
    have "\<forall>p. pageTypes ?st1 p \<noteq> PAGE_LOCKBYTE"
      using Suc.prems(2) by (intro markPage_no_lockbyte) simp_all
    then have inv: "\<forall>p. pageTypes ?st2 p \<noteq> PAGE_LOCKBYTE"
      by (intro fold_markPage_no_lockbyte) simp_all
    from Suc.prems(1) False rd nv
    have "walkFreelist_loop n g (get32 page 0)
            (if length visited < 10000 then visited @ [pgno] else visited) ?st2 = Some (Inr st')"
      by (simp add: Let_def)
    from Suc.IH [OF this inv] show ?thesis .
  qed
qed

text \<open>
  Claim C10. No step of the account query gives a page the lock-byte role: whenever the query
  produces its report, no page of the final classification has that role and the Lock-byte
  count of the report is 0.
\<close>

theorem lockbyte_never_assigned:
  assumes "account n g schema = Some (Inr r)"
  shows "(\<forall>p. pageTypes (final r) p \<noteq> PAGE_LOCKBYTE) \<and> count_of r PAGE_LOCKBYTE = 0"
proof -
  from assms obtain st1 where
    p1: "walkFreelist n g acct_init = Some (Inr st1)"
    and k: "keeps later_roles st1 (final r)" and c: "count_of r = counts g (final r)"
    by (rule account_phases)
  have "\<forall>p. pageTypes st1 p \<noteq> PAGE_LOCKBYTE"
    using p1 unfolding walkFreelist_def
    by (rule walkFreelist_loop_no_lockbyte) (simp add: acct_init_def)
  moreover have "PAGE_LOCKBYTE \<notin> later_roles"
    by (simp add: later_roles_def btree_roles_def orphan_roles_def)
  ultimately have no: "\<forall>p. pageTypes (final r) p \<noteq> PAGE_LOCKBYTE"
    using k unfolding keeps_def by metis
  then have "filter (\<lambda>i. pageTypes (final r) i = PAGE_LOCKBYTE) (all_pages g) = []"
    by (simp add: filter_empty_conv)
  then have "count_of r PAGE_LOCKBYTE = 0"
    by (simp add: c counts_def)
  with no show ?thesis by simp
qed

lemma shared_page_run:
  "case account 3 (db_of shared_page_file) (Some []) of
     Some (Inr r) \<Rightarrow>
       map (pageTypes (final r)) [1, 2, 3]
         = [PAGE_BTREE_INTERIOR_TABLE, PAGE_FREELIST_TRUNK, PAGE_FREELIST_LEAF]
       \<and> diags (final r) = []
   | _ \<Rightarrow> False"
  by code_simp

theorem lockbyte_never_assigned_witness:
  "\<exists>r. account 3 (db_of shared_page_file) (Some []) = Some (Inr r)
       \<and> (\<forall>p. pageTypes (final r) p \<noteq> PAGE_LOCKBYTE) \<and> count_of r PAGE_LOCKBYTE = 0"
proof -
  obtain r where "account 3 (db_of shared_page_file) (Some []) = Some (Inr r)"
    using shared_page_run by (auto split: option.splits sum.splits)
  with lockbyte_never_assigned [OF this] show ?thesis by blast
qed


section \<open>Results: conflicts and the role a page ends with\<close>

lemma markPage_overwrites:
  assumes "1 \<le> pgno" "pgno \<le> mxPage g"
  shows "pageTypes (markPage g pgno t parent st) pgno = t
     \<and> pageParents (markPage g pgno t parent st) pgno = parent
     \<and> diags (markPage g pgno t parent st)
         = diags st @ (if pageTypes st pgno \<noteq> PAGE_UNKNOWN \<and> pageTypes st pgno \<noteq> t
                       then [Conflict pgno (pageTypes st pgno) (pageParents st pgno) t parent]
                       else [])"
proof -
  have "\<not> (pgno < 1 \<or> pgno > mxPage g)"
    using assms by (auto simp: not_less)
  then show ?thesis
    by (simp add: markPage_def Let_def)
qed

lemma walkOverflow_skips_classified:
  "pageTypes st overflowPage \<noteq> PAGE_UNKNOWN \<Longrightarrow> walkOverflow g pgno overflowPage st = st"
  by (subst walkOverflow.simps) simp

lemma account_keeps_freelist_roles:
  assumes "account n g schema = Some (Inr r)"
  shows "\<exists>st1. walkFreelist n g acct_init = Some (Inr st1)
             \<and> diags (final r) = diags st1
             \<and> (\<forall>p. pageTypes st1 p \<noteq> PAGE_UNKNOWN \<longrightarrow>
                      pageTypes (final r) p = pageTypes st1 p
                    \<and> pageParents (final r) p = pageParents st1 p)"
proof -
  from assms obtain st1 where
    p1: "walkFreelist n g acct_init = Some (Inr st1)"
    and k: "keeps later_roles st1 (final r)"
    by (rule account_phases)
  from k have "diags (final r) = diags st1"
    and "\<forall>p. pageTypes st1 p \<noteq> PAGE_UNKNOWN \<longrightarrow>
                    pageTypes (final r) p = pageTypes st1 p
                  \<and> pageParents (final r) p = pageParents st1 p"
    unfolding keeps_def by auto
  with p1 show ?thesis by blast
qed







end
